theory Spec2Isabelle
  imports Complex_Main "HOL-Library.Signed_Division"
begin

section \<open>Data model\<close>

text \<open>
  The two programs are \<^verbatim>\<open>examples/mpi/mpi_amg.cpp\<close> and
  \<^verbatim>\<open>tutorial/2.Serena/serena_mpi_mixed.cpp\<close>.

  \<^item> A value of \<^verbatim>\<open>ptrdiff_t\<close> is an \<open>int\<close> in \<open>[-2^63, 2^63)\<close>, a value of \<^verbatim>\<open>int\<close> an \<open>int\<close>
    in \<open>[-2^31, 2^31)\<close>, a value of \<^verbatim>\<open>size_t\<close> a \<open>nat\<close> below \<open>2^64\<close>. Every addition,
    subtraction and multiplication of the source is followed by the wrap-around of its
    type: \<open>wrap64\<close>, \<open>wrap32\<close> (two's complement, what the compiled program computes where
    C++ leaves signed overflow undefined) and \<open>u64\<close>.
  \<^item> The C++ operators \<^verbatim>\<open>/\<close> and \<^verbatim>\<open>%\<close> on signed integers truncate towards zero: they are
    \<open>sdiv\<close> and \<open>smod\<close>. A division by zero traps in the source, and so does the division
    of the least \<^verbatim>\<open>ptrdiff_t\<close> by \<open>-1\<close>; the model returns \<open>DivisionByZero\<close> and
    \<open>DivisionOverflow\<close>.
  \<^item> A size above \<^verbatim>\<open>max_size()\<close> handed to \<^verbatim>\<open>std::vector::reserve\<close> or \<^verbatim>\<open>resize\<close> throws
    \<^verbatim>\<open>std::length_error\<close>, and a negative size is converted to a \<^verbatim>\<open>size_t\<close> above it; the
    model returns \<open>LengthError\<close>. The storage of the machine is taken to suffice:
    \<^verbatim>\<open>std::bad_alloc\<close> is not modelled.
  \<^item> The \<^verbatim>\<open>double\<close> values of the assembled Poisson matrix are integers; they are
    modelled by \<open>real\<close>, and \<open>round53\<close> rounds an integer to the nearest \<^verbatim>\<open>double\<close>.
\<close>

record communicator =
  comm_size :: int
  comm_rank :: int

datatype error = DivisionByZero | DivisionOverflow | LengthError

subsection \<open>Machine arithmetic\<close>

definition wrap64 :: "int \<Rightarrow> int" where
  "wrap64 x = (x + 2 ^ 63) mod 2 ^ 64 - 2 ^ 63"

definition wrap32 :: "int \<Rightarrow> int" where
  "wrap32 x = (x + 2 ^ 31) mod 2 ^ 32 - 2 ^ 31"

definition u64 :: "int \<Rightarrow> nat" where
  "u64 x = nat (x mod 2 ^ 64)"

definition div64 :: "int \<Rightarrow> int \<Rightarrow> error + int" where
  "div64 a b =
     (if b = 0 then Inl DivisionByZero
      else if a = - (2 ^ 63) \<and> b = - 1 then Inl DivisionOverflow
      else Inr (a sdiv b))"

definition mod64 :: "int \<Rightarrow> int \<Rightarrow> error + int" where
  "mod64 a b =
     (if b = 0 then Inl DivisionByZero
      else if a = - (2 ^ 63) \<and> b = - 1 then Inl DivisionOverflow
      else Inr (a smod b))"

text \<open>
  \<^verbatim>\<open>max_size()\<close> of a \<^verbatim>\<open>std::vector\<close> of 8-byte elements (\<^verbatim>\<open>ptrdiff_t\<close>, \<^verbatim>\<open>double\<close>) in the GNU
  library on a 64-bit system: the largest \<^verbatim>\<open>ptrdiff_t\<close> divided by the element size.
\<close>

definition vector_max_size :: int where
  "vector_max_size = (2 ^ 63 - 1) div 8"

text \<open>
  The conversion of an integer to \<^verbatim>\<open>double\<close> and the rounding of an integer result of a
  \<^verbatim>\<open>double\<close> operation: integers below \<open>2^53\<close> in magnitude are kept, larger ones are
  rounded to 53 significant bits, to the nearest and in a tie to the even one.
\<close>

fun bit_length :: "nat \<Rightarrow> nat" where
  "bit_length n = (if n = 0 then 0 else Suc (bit_length (n div 2)))"

declare bit_length.simps [simp del]

definition round53 :: "int \<Rightarrow> int" where
  "round53 x =
     (if \<bar>x\<bar> < 2 ^ 53 then x
      else
        let u = 2 ^ (bit_length (nat \<bar>x\<bar>) - 53);
            q = x div u;
            r = x mod u
        in (if 2 * r < u then q
            else if u < 2 * r then q + 1
            else if even q then q else q + 1) * u)"

subsection \<open>Row ranges\<close>

text \<open>
  \<^verbatim>\<open>mpi_amg.cpp\<close> lines 59-64, 133-139 and 167-173 are three copies of the same
  computation on \<^verbatim>\<open>ptrdiff_t\<close>; \<open>n\<close> is the global number of rows, the fields of the
  communicator and \<open>block_size\<close> are of type \<^verbatim>\<open>int\<close>.
\<close>

definition row_range :: "communicator \<Rightarrow> int \<Rightarrow> int \<Rightarrow> error + (int \<times> int)" where
  "row_range comm n block_size =
     (case div64 (wrap64 (wrap64 (n + comm_size comm) - 1)) (comm_size comm) of
        Inl e \<Rightarrow> Inl e
      | Inr chunk \<Rightarrow>
          (case mod64 chunk block_size of
             Inl e \<Rightarrow> Inl e
           | Inr r \<Rightarrow>
               let chunk = (if r \<noteq> 0 then wrap64 (chunk + wrap64 (block_size - r)) else chunk);
                   row_beg = min n (wrap64 (chunk * comm_rank comm));
                   row_end = min n (wrap64 (row_beg + chunk))
               in Inr (row_beg, row_end)))"

text \<open>
  \<^verbatim>\<open>serena_mpi_mixed.cpp\<close> lines 45-49: the same computation on \<^verbatim>\<open>size_t\<close>, with the
  block size the constant \<^verbatim>\<open>B = 3\<close>. The communicator's \<^verbatim>\<open>int\<close> fields are converted to
  \<^verbatim>\<open>size_t\<close>; the result is \<open>(row_beg, row_end, chunk)\<close>.
\<close>

definition B :: nat where
  "B = 3"

definition serena_row_range :: "communicator \<Rightarrow> nat \<Rightarrow> error + (nat \<times> nat \<times> nat)" where
  "serena_row_range world rows =
     (let size = u64 (comm_size world);
          rank = u64 (comm_rank world)
      in if size = 0 then Inl DivisionByZero
         else
           let chunk = u64 (int (u64 (int rows + int size)) - 1) div size;
               chunk = (if chunk mod B \<noteq> 0
                        then u64 (int chunk + int (u64 (int B - int (chunk mod B)))) else chunk);
               row_beg = min rows (u64 (int chunk * int rank));
               row_end = min rows (u64 (int row_beg + int chunk))
           in Inr (row_beg, row_end, u64 (int row_end - int row_beg)))"

text \<open>
  The range assignment in the words of the specification: \<open>chunk = ceil (N / P)\<close>, rounded
  up to the next multiple of \<open>align\<close> if it is not one already, then
  \<open>row_beg = min N (chunk * rank)\<close> and \<open>row_end = min N (row_beg + chunk)\<close>.
\<close>

definition spec_chunk :: "int \<Rightarrow> int \<Rightarrow> int \<Rightarrow> int" where
  "spec_chunk N P align =
     (let c = \<lceil>real_of_int N / real_of_int P\<rceil>
      in if align dvd c then c else (c div align + 1) * align)"

definition spec_assign :: "int \<Rightarrow> int \<Rightarrow> int \<Rightarrow> int \<Rightarrow> int \<times> int" where
  "spec_assign N P rank align =
     (let chunk = spec_chunk N P align;
          row_beg = min N (chunk * rank);
          row_end = min N (row_beg + chunk)
      in (row_beg, row_end))"

subsection \<open>Synthetic 3D Poisson problem\<close>

text \<open>
  The CRS arrays \<^verbatim>\<open>ptr\<close>, \<^verbatim>\<open>col\<close>, \<^verbatim>\<open>val\<close> and the right-hand side \<^verbatim>\<open>rhs\<close>, which the
  functions of \<^verbatim>\<open>mpi_amg.cpp\<close> fill through reference parameters.
\<close>

record problem =
  ptr :: "int list"
  col :: "int list"
  val :: "real list"
  rhs :: "real list"

text \<open>\<^verbatim>\<open>col.push_back(c); val.push_back(v);\<close>\<close>

definition push_entry :: "int \<Rightarrow> real \<Rightarrow> problem \<Rightarrow> problem" where
  "push_entry c v s = s\<lparr>col := col s @ [c], val := val s @ [v]\<rparr>"

text \<open>
  The body of the loop of \<^verbatim>\<open>assemble_poisson3d\<close> (lines 78-115) for the row \<open>idx\<close>.
  \<open>h2i\<close> is the integer which the \<^verbatim>\<open>double\<close> of line 74 holds; \<^verbatim>\<open>-h2i\<close> is exact and
  \<^verbatim>\<open>6 * h2i\<close> is rounded. The divisions of the body are guarded in \<open>assemble_poisson3d\<close>.
\<close>

definition poisson_row :: "int \<Rightarrow> int \<Rightarrow> int \<Rightarrow> problem \<Rightarrow> problem" where
  "poisson_row n h2i idx s =
     (let k = idx sdiv wrap64 (n * n);
          j = (idx sdiv n) smod n;
          i = idx smod n;
          s = (if k > 0
               then push_entry (wrap64 (idx - wrap64 (n * n))) (- real_of_int h2i) s else s);
          s = (if j > 0 then push_entry (wrap64 (idx - n)) (- real_of_int h2i) s else s);
          s = (if i > 0 then push_entry (wrap64 (idx - 1)) (- real_of_int h2i) s else s);
          s = push_entry idx (real_of_int (round53 (6 * h2i))) s;
          s = (if wrap64 (i + 1) < n
               then push_entry (wrap64 (idx + 1)) (- real_of_int h2i) s else s);
          s = (if wrap64 (j + 1) < n
               then push_entry (wrap64 (idx + n)) (- real_of_int h2i) s else s);
          s = (if wrap64 (k + 1) < n
               then push_entry (wrap64 (idx + wrap64 (n * n))) (- real_of_int h2i) s else s)
      in s\<lparr>ptr := ptr s @ [int (length (col s))]\<rparr>)"

text \<open>
  \<^verbatim>\<open>for (ptrdiff_t idx = row_beg; idx < row_end; ++idx)\<close>; the increment does not
  overflow, since \<open>idx < row_end\<close>.
\<close>

function poisson_loop :: "int \<Rightarrow> int \<Rightarrow> int \<Rightarrow> int \<Rightarrow> problem \<Rightarrow> problem" where
  "poisson_loop n h2i idx row_end s =
     (if idx < row_end then poisson_loop n h2i (idx + 1) row_end (poisson_row n h2i idx s)
      else s)"
  by pat_completeness auto
termination
  by (relation "measure (\<lambda>(n, h2i, idx, row_end, s). nat (row_end - idx))") auto

declare poisson_loop.simps [simp del]

text \<open>
  \<^verbatim>\<open>assemble_poisson3d\<close> returns the local number of rows \<^verbatim>\<open>chunk\<close> and the filled arrays.
  \<^verbatim>\<open>ptr.reserve(chunk + 1)\<close>, \<^verbatim>\<open>col.reserve(chunk * 7)\<close>, \<^verbatim>\<open>val.reserve(chunk * 7)\<close> and
  \<^verbatim>\<open>rhs.resize(chunk)\<close> take a \<^verbatim>\<open>size_t\<close> and throw for an argument above \<^verbatim>\<open>max_size()\<close>.
  The divisors \<^verbatim>\<open>n * n\<close> and \<^verbatim>\<open>n\<close> of the loop body do not change, and only
  the first row index can be the least \<^verbatim>\<open>ptrdiff_t\<close>: a division of the body traps in the
  first pass of the loop or never.
\<close>

definition assemble_poisson3d :: "communicator \<Rightarrow> int \<Rightarrow> int \<Rightarrow> error + (int \<times> problem)" where
  "assemble_poisson3d comm n block_size =
     (let n3 = wrap64 (wrap64 (n * n) * n) in
      case row_range comm n3 block_size of
        Inl e \<Rightarrow> Inl e
      | Inr (row_beg, row_end) \<Rightarrow>
          let chunk = wrap64 (row_end - row_beg) in
          if vector_max_size < int (u64 (wrap64 (chunk + 1)))
             \<or> vector_max_size < int (u64 (wrap64 (chunk * 7)))
             \<or> vector_max_size < int (u64 chunk) then Inl LengthError
          else
            let s = \<lparr>ptr = [], col = [], val = [], rhs = replicate (nat chunk) 1\<rparr>;
                h2i = round53 (wrap64 (wrap64 (n - 1) * wrap64 (n - 1)));
                s = s\<lparr>ptr := ptr s @ [0]\<rparr>
            in if row_beg < row_end \<and> wrap64 (n * n) = 0 then Inl DivisionByZero
               else if row_beg < row_end \<and> row_beg = - (2 ^ 63)
                       \<and> (n = - 1 \<or> wrap64 (n * n) = - 1) then Inl DivisionOverflow
               else Inr (chunk, poisson_loop n h2i row_beg row_end s))"

text \<open>The entries of the local row \<open>i\<close> of a CRS matrix: its columns and its values.\<close>

definition slice :: "'a list \<Rightarrow> int \<Rightarrow> int \<Rightarrow> 'a list" where
  "slice xs b e = take (nat (e - b)) (drop (nat b) xs)"

definition row_cols :: "problem \<Rightarrow> nat \<Rightarrow> int list" where
  "row_cols s i = slice (col s) (ptr s ! i) (ptr s ! (i + 1))"

definition row_vals :: "problem \<Rightarrow> nat \<Rightarrow> real list" where
  "row_vals s i = slice (val s) (ptr s ! i) (ptr s ! (i + 1))"

definition row_entries :: "problem \<Rightarrow> nat \<Rightarrow> (int \<times> real) list" where
  "row_entries s i = zip (row_cols s i) (row_vals s i)"

text \<open>
  The row of the specification: with \<open>k = idx / (n * n)\<close>, \<open>j = (idx / n) mod n\<close>,
  \<open>i = idx mod n\<close> and \<open>h = 1 / (n - 1)\<close>, a diagonal entry \<open>6 * h^-2\<close> and an entry
  \<open>- h^-2\<close> for each of the six axis neighbours whose coordinate stays in \<open>[0, n)\<close>.
\<close>

definition in_grid :: "int \<Rightarrow> int \<Rightarrow> bool" where
  "in_grid n c \<longleftrightarrow> 0 \<le> c \<and> c < n"

definition spec_row :: "int \<Rightarrow> int \<Rightarrow> (int \<times> real) set" where
  "spec_row n idx =
     (let k = idx div (n * n);
          j = (idx div n) mod n;
          i = idx mod n;
          h = 1 / real_of_int (n - 1)
      in {(idx, 6 * (1 / h\<^sup>2))}
         \<union> (if in_grid n (i - 1) then {(idx - 1, - (1 / h\<^sup>2))} else {})
         \<union> (if in_grid n (i + 1) then {(idx + 1, - (1 / h\<^sup>2))} else {})
         \<union> (if in_grid n (j - 1) then {(idx - n, - (1 / h\<^sup>2))} else {})
         \<union> (if in_grid n (j + 1) then {(idx + n, - (1 / h\<^sup>2))} else {})
         \<union> (if in_grid n (k - 1) then {(idx - n * n, - (1 / h\<^sup>2))} else {})
         \<union> (if in_grid n (k + 1) then {(idx + n * n, - (1 / h\<^sup>2))} else {}))"

subsection \<open>Reading a problem from files\<close>

text \<open>
  Modelled from the spec: the readers of \<^verbatim>\<open>amgcl/io/mm.hpp\<close> and \<^verbatim>\<open>amgcl/io/binary.hpp\<close>
  are not part of the sources at hand. They are the row-range reader capability of the
  specification, \<open>read (path, N, row_beg, row_end) -> (ptr, col, val)\<close> and
  \<open>read_vector (path, row_beg, row_end) -> values\<close>, and are parameters of the model.
\<close>

record io =
  mm_rows :: "string \<Rightarrow> int"
  mm_matrix :: "string \<Rightarrow> int \<Rightarrow> int \<Rightarrow> int list \<times> int list \<times> real list"
  mm_vector :: "string \<Rightarrow> int \<Rightarrow> int \<Rightarrow> real list"
  crs_size :: "string \<Rightarrow> int"
  read_crs :: "string \<Rightarrow> int \<Rightarrow> int \<Rightarrow> int \<Rightarrow> int list \<times> int list \<times> real list"
  read_dense :: "string \<Rightarrow> int \<Rightarrow> int \<Rightarrow> real list"

text \<open>\<^verbatim>\<open>read_matrix_market\<close>, lines 122-154. \<^verbatim>\<open>rhs.resize(chunk)\<close> throws for a \<^verbatim>\<open>chunk\<close>
  that is negative or above \<^verbatim>\<open>max_size()\<close>.\<close>

definition read_matrix_market ::
  "io \<Rightarrow> communicator \<Rightarrow> string \<Rightarrow> string \<Rightarrow> int \<Rightarrow> error + (int \<times> problem)" where
  "read_matrix_market io comm A_file rhs_file block_size =
     (let n = mm_rows io A_file in
      case row_range comm n block_size of
        Inl e \<Rightarrow> Inl e
      | Inr (row_beg, row_end) \<Rightarrow>
          let chunk = wrap64 (row_end - row_beg);
              (p, c, v) = mm_matrix io A_file row_beg row_end
          in if rhs_file = []
             then (if vector_max_size < int (u64 chunk) then Inl LengthError
                   else Inr (chunk, \<lparr>ptr = p, col = c, val = v, rhs = replicate (nat chunk) 1\<rparr>))
             else Inr (chunk, \<lparr>ptr = p, col = c, val = v,
                               rhs = mm_vector io rhs_file row_beg row_end\<rparr>))"

text \<open>\<^verbatim>\<open>read_binary\<close>, lines 157-188.\<close>

definition read_binary ::
  "io \<Rightarrow> communicator \<Rightarrow> string \<Rightarrow> string \<Rightarrow> int \<Rightarrow> error + (int \<times> problem)" where
  "read_binary io comm A_file rhs_file block_size =
     (let n = crs_size io A_file in
      case row_range comm n block_size of
        Inl e \<Rightarrow> Inl e
      | Inr (row_beg, row_end) \<Rightarrow>
          let chunk = wrap64 (row_end - row_beg);
              (p, c, v) = read_crs io A_file n row_beg row_end
          in if rhs_file = []
             then (if vector_max_size < int (u64 chunk) then Inl LengthError
                   else Inr (chunk, \<lparr>ptr = p, col = c, val = v, rhs = replicate (nat chunk) 1\<rparr>))
             else Inr (chunk, \<lparr>ptr = p, col = c, val = v,
                               rhs = read_dense io rhs_file row_beg row_end\<rparr>))"

subsection \<open>The main program of \<^verbatim>\<open>mpi_amg.cpp\<close>\<close>

text \<open>
  The partition strategies the source names (the enumeration itself is declared in
  \<^verbatim>\<open>amgcl/mpi/partition/runtime.hpp\<close>).
\<close>

datatype ptype = merge | parmetis | ptscotch

text \<open>
  The command-line options \<^verbatim>\<open>vm\<close> read by \<^verbatim>\<open>main\<close>; \<open>aggr_block\<close> is the parameter
  \<^verbatim>\<open>precond.coarsening.aggr.block_size\<close> (default 1).
\<close>

record options =
  vm_matrix :: "string option"
  vm_rhs :: string
  vm_binary :: bool
  vm_block_size :: int
  vm_partitioner :: ptype
  vm_size :: int
  aggr_block :: int

text \<open>
  Lines 519-542 of \<^verbatim>\<open>main\<close>: the problem is read from files or assembled. The alignment
  \<^verbatim>\<open>block_size * aggr_block\<close> is a product of two \<^verbatim>\<open>int\<close>.
\<close>

definition problem_source :: "io \<Rightarrow> communicator \<Rightarrow> options \<Rightarrow> error + (int \<times> problem)" where
  "problem_source io comm vm =
     (case vm_matrix vm of
        Some A_file \<Rightarrow>
          if vm_binary vm
          then read_binary io comm A_file (vm_rhs vm) (wrap32 (vm_block_size vm * aggr_block vm))
          else read_matrix_market io comm A_file (vm_rhs vm)
                 (wrap32 (vm_block_size vm * aggr_block vm))
      | None \<Rightarrow> assemble_poisson3d comm (vm_size vm) (wrap32 (vm_block_size vm * aggr_block vm)))"

text \<open>
  Lines 546-565 of \<^verbatim>\<open>main\<close>: the switch over the block size. The cases
  \<^verbatim>\<open>solve_block<B>\<close> are generated from the macro \<^verbatim>\<open>AMGCL_BLOCK_SIZES\<close> (default
  \<^verbatim>\<open>(3)(4)\<close>) for the builtin and VexCL backends only. The result lists what the
  process does: which solver it calls, what it prints.
\<close>

datatype backend = BUILTIN | VEXCL | CUDA

datatype action = Solve_block int | Solve_scalar | Print string

definition AMGCL_BLOCK_SIZES :: "int list" where
  "AMGCL_BLOCK_SIZES = [3, 4]"

definition block_size_switch :: "backend \<Rightarrow> int list \<Rightarrow> communicator \<Rightarrow> int \<Rightarrow> action list" where
  "block_size_switch be block_sizes comm bs =
     (if (be = BUILTIN \<or> be = VEXCL) \<and> bs \<in> set block_sizes then [Solve_block bs]
      else if bs = 1 then [Solve_scalar]
      else if comm_rank comm = 0 then [Print ''Unsupported block size!'']
      else [])"

text \<open>
  \<^verbatim>\<open>main\<close> from line 513 on, once the options are read: the problem source runs first, then
  the switch over the block size. An error of the problem source ends the program before
  the switch.
\<close>

definition main ::
  "io \<Rightarrow> backend \<Rightarrow> int list \<Rightarrow> communicator \<Rightarrow> options \<Rightarrow> error + action list" where
  "main io be block_sizes comm vm =
     (case problem_source io comm vm of
        Inl e \<Rightarrow> Inl e
      | Inr (n, s) \<Rightarrow> Inr (block_size_switch be block_sizes comm (vm_block_size vm)))"

text \<open>The block sizes with a case in the switch.\<close>

definition supported_block_sizes :: "backend \<Rightarrow> int list \<Rightarrow> int set" where
  "supported_block_sizes be block_sizes =
     {1} \<union> (if be = CUDA then {} else set block_sizes)"

subsection \<open>Repartitioning\<close>

text \<open>
  Modelled from the spec: \<^verbatim>\<open>amgcl::mpi::distributed_matrix\<close>, \<^verbatim>\<open>transpose\<close>, \<^verbatim>\<open>product\<close>,
  \<^verbatim>\<open>amgcl::backend::spmv\<close> and the partitioners are not part of the sources at hand.
  Their numerics are parameters of the model (\<open>'m\<close> is the content of a distributed
  matrix, \<open>'x\<close> a vector element). What the specification says about them (section 4.3)
  is modelled: a distributed matrix is composable until it is moved to the backend, the
  move is one-way, transpose and product need composable operands, and the matrix-vector
  product needs a backend-resident matrix and writes one element per element of its
  output vector.
\<close>

record 'm dmatrix =
  mat :: 'm
  on_backend :: bool

record ('strip, 'm, 'x) mpi_ops =
  make_dmatrix :: "communicator \<Rightarrow> 'strip \<Rightarrow> 'm"
  part :: "ptype \<Rightarrow> int \<Rightarrow> 'm \<Rightarrow> int \<Rightarrow> 'm"
  transpose_m :: "'m \<Rightarrow> 'm"
  product_m :: "'m \<Rightarrow> 'm \<Rightarrow> 'm"
  loc_rows :: "'m \<Rightarrow> nat"
  zero_x :: 'x
  spmv_row :: "real \<Rightarrow> 'm \<Rightarrow> 'x list \<Rightarrow> real \<Rightarrow> 'x \<Rightarrow> nat \<Rightarrow> 'x"

datatype mpi_error = Not_composable | Not_on_backend

datatype 'm event =
    Tic string
  | Toc string
  | Call_part 'm int
  | Call_transpose 'm
  | Call_product 'm 'm
  | Call_move_to_backend 'm
  | Call_spmv 'm

definition transpose_d ::
  "('strip, 'm, 'x) mpi_ops \<Rightarrow> 'm dmatrix \<Rightarrow> mpi_error + 'm dmatrix" where
  "transpose_d ops X =
     (if on_backend X then Inl Not_composable
      else Inr \<lparr>mat = transpose_m ops (mat X), on_backend = False\<rparr>)"

definition product_d ::
  "('strip, 'm, 'x) mpi_ops \<Rightarrow> 'm dmatrix \<Rightarrow> 'm dmatrix \<Rightarrow> mpi_error + 'm dmatrix" where
  "product_d ops X Y =
     (if on_backend X \<or> on_backend Y then Inl Not_composable
      else Inr \<lparr>mat = product_m ops (mat X) (mat Y), on_backend = False\<rparr>)"

definition move_to_backend :: "'m dmatrix \<Rightarrow> 'm dmatrix" where
  "move_to_backend X = X\<lparr>on_backend := True\<rparr>"

definition spmv ::
  "('strip, 'm, 'x) mpi_ops \<Rightarrow> real \<Rightarrow> 'm dmatrix \<Rightarrow> 'x list \<Rightarrow> real \<Rightarrow> 'x list
     \<Rightarrow> mpi_error + 'x list" where
  "spmv ops alpha X x beta y =
     (if \<not> on_backend X then Inl Not_on_backend
      else Inr (map (\<lambda>i. spmv_row ops alpha (mat X) x beta (y ! i) i) [0..<length y]))"

text \<open>
  \<^verbatim>\<open>partition\<close>, lines 191-233. The result is the returned matrix, the right-hand side
  (a reference parameter of the source) and the calls made, in their order.
\<close>

definition partition ::
  "('strip, 'm, 'x) mpi_ops \<Rightarrow> communicator \<Rightarrow> 'strip \<Rightarrow> 'x list \<Rightarrow> ptype \<Rightarrow> int
     \<Rightarrow> mpi_error + ('m dmatrix \<times> 'x list \<times> 'm event list)" where
  "partition ops comm Astrip rhs_v ptype block_size =
     (let A = \<lparr>mat = make_dmatrix ops comm Astrip, on_backend = False\<rparr> in
      if comm_size comm = 1 \<or> ptype = merge then Inr (A, rhs_v, [])
      else
        let log = [Tic ''partition''];
            I = \<lparr>mat = part ops ptype 1 (mat A) block_size, on_backend = False\<rparr>;
            log = log @ [Call_part (mat A) block_size];
            log = log @ [Call_transpose (mat I)]
        in case transpose_d ops I of
             Inl e \<Rightarrow> Inl e
           | Inr J \<Rightarrow>
               let log = log @ [Call_product (mat A) (mat I)]
               in case product_d ops A I of
                    Inl e \<Rightarrow> Inl e
                  | Inr AI \<Rightarrow>
                      let log = log @ [Call_product (mat J) (mat AI)]
                      in case product_d ops J AI of
                           Inl e \<Rightarrow> Inl e
                         | Inr A \<Rightarrow>
                             let new_rhs = replicate (loc_rows ops (mat J)) (zero_x ops);
                                 J = move_to_backend J;
                                 log = log @ [Call_move_to_backend (mat J)];
                                 log = log @ [Call_spmv (mat J)]
                             in case spmv ops 1 J rhs_v 0 new_rhs of
                                  Inl e \<Rightarrow> Inl e
                                | Inr new_rhs \<Rightarrow>
                                    let (rhs_v, new_rhs) = (new_rhs, rhs_v);
                                        log = log @ [Toc ''partition'']
                                    in Inr (A, rhs_v, log))"

subsection \<open>Diagonal scaling in \<^verbatim>\<open>serena_mpi_mixed.cpp\<close>\<close>

text \<open>
  A read \<^verbatim>\<open>xs[i]\<close> of a vector; out of range it is undefined behaviour in the source and
  \<open>None\<close> in the model.
\<close>

definition read_at :: "'a list \<Rightarrow> int \<Rightarrow> 'a option" where
  "read_at xs i = (if 0 \<le> i \<and> i < int (length xs) then Some (xs ! nat i) else None)"

text \<open>
  The vectors \<^verbatim>\<open>dia\<close>, \<^verbatim>\<open>d_ptr\<close>, \<^verbatim>\<open>d_col\<close> (lines 82-83). The element type \<open>'a\<close> stands
  for \<^verbatim>\<open>double\<close>; the floating-point computation \<^verbatim>\<open>1 / sqrt(x)\<close> and the constant \<^verbatim>\<open>1.0\<close>
  are the parameters \<open>inv_sqrt\<close> and \<open>one\<close> of the model.
\<close>

record 'a scaling =
  dia :: "'a list"
  d_ptr :: "int list"
  d_col :: "int list"

text \<open>
  The inner loop, lines 87-92:
  \<^verbatim>\<open>for (j = ptr[i], e = ptr[i+1]; j < e; ++j) if (col[j] == I) { dia[i] = ...; break; }\<close>
\<close>

function scale_row ::
  "('a \<Rightarrow> 'a) \<Rightarrow> int list \<Rightarrow> 'a list \<Rightarrow> nat \<Rightarrow> nat \<Rightarrow> int \<Rightarrow> int \<Rightarrow> 'a list \<Rightarrow> 'a list option" where
  "scale_row inv_sqrt cols vals i I j e d =
     (if j < e then
        (case read_at cols j of
           None \<Rightarrow> None
         | Some c \<Rightarrow>
             if c = int I then
               (case read_at vals j of
                  None \<Rightarrow> None
                | Some v \<Rightarrow> Some (d[i := inv_sqrt v]))
             else scale_row inv_sqrt cols vals i I (j + 1) e d)
      else Some d)"
  by pat_completeness auto
termination
  by (relation "measure (\<lambda>(inv_sqrt, cols, vals, i, I, j, e, d). nat (e - j))") auto

declare scale_row.simps [simp del]

text \<open>The outer loop, lines 84-93: \<^verbatim>\<open>for (size_t i = 0, I = row_beg; i < chunk; ++i, ++I)\<close>\<close>

function scale_loop ::
  "('a \<Rightarrow> 'a) \<Rightarrow> int list \<Rightarrow> int list \<Rightarrow> 'a list \<Rightarrow> nat \<Rightarrow> nat \<Rightarrow> nat \<Rightarrow> 'a scaling
     \<Rightarrow> 'a scaling option" where
  "scale_loop inv_sqrt ptrs cols vals chunk i I s =
     (if i < chunk then
        let s = s\<lparr>d_ptr := (d_ptr s)[i := int i]\<rparr>;
            s = s\<lparr>d_col := (d_col s)[i := int I]\<rparr>
        in case read_at ptrs (int i) of
             None \<Rightarrow> None
           | Some j \<Rightarrow>
               (case read_at ptrs (int (i + 1)) of
                  None \<Rightarrow> None
                | Some e \<Rightarrow>
                    (case scale_row inv_sqrt cols vals i I j e (dia s) of
                       None \<Rightarrow> None
                     | Some d \<Rightarrow>
                         scale_loop inv_sqrt ptrs cols vals chunk (i + 1) (I + 1)
                           (s\<lparr>dia := d\<rparr>)))
      else Some s)"
  by pat_completeness auto
termination
  by (relation "measure (\<lambda>(inv_sqrt, ptrs, cols, vals, chunk, i, I, s). chunk - i)") auto

declare scale_loop.simps [simp del]

text \<open>Lines 82-94: the vectors are created, the loop runs, \<^verbatim>\<open>d_ptr.back() = chunk\<close>.\<close>

definition diagonal_scaling ::
  "('a \<Rightarrow> 'a) \<Rightarrow> 'a \<Rightarrow> int list \<Rightarrow> int list \<Rightarrow> 'a list \<Rightarrow> nat \<Rightarrow> nat \<Rightarrow> 'a scaling option" where
  "diagonal_scaling inv_sqrt one ptrs cols vals chunk row_beg =
     (let s = \<lparr>dia = replicate chunk one,
               d_ptr = replicate (chunk + 1) 0,
               d_col = replicate chunk 0\<rparr>
      in case scale_loop inv_sqrt ptrs cols vals chunk 0 row_beg s of
           None \<Rightarrow> None
         | Some s \<Rightarrow> Some (s\<lparr>d_ptr := (d_ptr s)[length (d_ptr s) - 1 := int chunk]\<rparr>))"

text \<open>
  The stored entries of the local row \<open>i\<close> of the CRS arrays, and the first of them in
  the column \<open>I\<close>.
\<close>

definition crs_row :: "int list \<Rightarrow> int list \<Rightarrow> 'a list \<Rightarrow> nat \<Rightarrow> (int \<times> 'a) list" where
  "crs_row ptrs cols vals i =
     zip (slice cols (ptrs ! i) (ptrs ! (i + 1))) (slice vals (ptrs ! i) (ptrs ! (i + 1)))"

definition diagonal_entry :: "int list \<Rightarrow> int list \<Rightarrow> 'a list \<Rightarrow> nat \<Rightarrow> nat \<Rightarrow> 'a option" where
  "diagonal_entry ptrs cols vals i I =
     map_option snd (find (\<lambda>(c, v). c = int I) (crs_row ptrs cols vals i))"

text \<open>
  The CRS arrays of a local chunk of \<open>chunk\<close> rows are well formed: the row pointers are
  \<open>chunk + 1\<close> non-decreasing offsets into the column and value arrays, which have the
  same length.
\<close>

definition crs_wf :: "int list \<Rightarrow> int list \<Rightarrow> 'a list \<Rightarrow> nat \<Rightarrow> bool" where
  "crs_wf ptrs cols vals chunk \<longleftrightarrow>
     length ptrs = chunk + 1 \<and> 0 \<le> ptrs ! 0
     \<and> (\<forall>i<chunk. ptrs ! i \<le> ptrs ! (i + 1))
     \<and> ptrs ! chunk \<le> int (length cols) \<and> length vals = length cols"

subsection \<open>Auxiliary notions\<close>

text \<open>
  The columns of a row of the specification, in the order of the source: the seven
  candidates \<open>idx - n * n\<close>, \<open>idx - n\<close>, \<open>idx - 1\<close>, \<open>idx\<close>, \<open>idx + 1\<close>, \<open>idx + n\<close>,
  \<open>idx + n * n\<close>, each kept when the grid coordinate it changes stays in \<open>[0, n)\<close>.
\<close>

definition spec_row_cols :: "int \<Rightarrow> int \<Rightarrow> int list" where
  "spec_row_cols n idx =
     (let k = idx div (n * n);
          j = (idx div n) mod n;
          i = idx mod n
      in map fst (filter (\<lambda>(c, x). in_grid n x)
           [(idx - n * n, k - 1), (idx - n, j - 1), (idx - 1, i - 1), (idx, i),
            (idx + 1, i + 1), (idx + n, j + 1), (idx + n * n, k + 1)]))"

text \<open>The entries which the body of the loop of \<^verbatim>\<open>assemble_poisson3d\<close> appends for the row \<open>idx\<close>.\<close>

definition stencil :: "int \<Rightarrow> int \<Rightarrow> int \<Rightarrow> (int \<times> real) list" where
  "stencil n h2i idx =
     (let k = idx sdiv wrap64 (n * n);
          j = (idx sdiv n) smod n;
          i = idx smod n
      in (if k > 0 then [(wrap64 (idx - wrap64 (n * n)), - real_of_int h2i)] else [])
         @ (if j > 0 then [(wrap64 (idx - n), - real_of_int h2i)] else [])
         @ (if i > 0 then [(wrap64 (idx - 1), - real_of_int h2i)] else [])
         @ [(idx, real_of_int (round53 (6 * h2i)))]
         @ (if wrap64 (i + 1) < n then [(wrap64 (idx + 1), - real_of_int h2i)] else [])
         @ (if wrap64 (j + 1) < n then [(wrap64 (idx + n), - real_of_int h2i)] else [])
         @ (if wrap64 (k + 1) < n
            then [(wrap64 (idx + wrap64 (n * n)), - real_of_int h2i)] else []))"

text \<open>
  The invariant of the loop of \<^verbatim>\<open>assemble_poisson3d\<close> after \<open>m\<close> rows: \<open>m + 1\<close> row pointers
  into the columns and values, and every finished row holds its stencil.
\<close>

definition rows_ok :: "int \<Rightarrow> int \<Rightarrow> int \<Rightarrow> problem \<Rightarrow> nat \<Rightarrow> bool" where
  "rows_ok n h2i row_beg s m \<longleftrightarrow>
     length (ptr s) = m + 1 \<and> ptr s ! 0 = 0 \<and> ptr s ! m = int (length (col s))
     \<and> length (val s) = length (col s)
     \<and> (\<forall>i\<le>m. 0 \<le> ptr s ! i \<and> ptr s ! i \<le> int (length (col s)))
     \<and> (\<forall>i<m. ptr s ! i \<le> ptr s ! (i + 1)
                \<and> row_cols s i = map fst (stencil n h2i (row_beg + int i))
                \<and> row_vals s i = map snd (stencil n h2i (row_beg + int i)))"

text \<open>
  The global number of rows of the problem which \<^verbatim>\<open>main\<close> reads or assembles: the cube of
  the grid size, or what the reader reports for the matrix file.
\<close>

definition global_rows :: "io \<Rightarrow> options \<Rightarrow> int" where
  "global_rows io vm =
     (case vm_matrix vm of
        None \<Rightarrow> vm_size vm * vm_size vm * vm_size vm
      | Some A_file \<Rightarrow> if vm_binary vm then crs_size io A_file else mm_rows io A_file)"

text \<open>
  The value to which the loop of the diagonal scaling sets \<^verbatim>\<open>dia[k]\<close>, given the value
  \<open>dflt\<close> it had before.
\<close>

definition scaled :: "('a \<Rightarrow> 'a) \<Rightarrow> int list \<Rightarrow> int list \<Rightarrow> 'a list \<Rightarrow> nat \<Rightarrow> nat \<Rightarrow> 'a \<Rightarrow> 'a" where
  "scaled inv_sqrt ptrs cols vals row_beg k dflt =
     (case diagonal_entry ptrs cols vals k (row_beg + k) of
        None \<Rightarrow> dflt
      | Some v \<Rightarrow> inv_sqrt v)"

subsection \<open>Example inputs\<close>

text \<open>
  Readers that report 10 rows and return empty rows, a right-hand side of twos from a
  MatrixMarket file and of threes from a binary file; options of \<^verbatim>\<open>main\<close>; and operations
  on distributed matrices that build the name of their result.
\<close>

definition example_io :: io where
  "example_io =
     \<lparr>mm_rows = (\<lambda>f. 10),
      mm_matrix = (\<lambda>f b e. (replicate (nat (e - b) + 1) 0, [], [])),
      mm_vector = (\<lambda>f b e. replicate (nat (e - b)) 2),
      crs_size = (\<lambda>f. 10),
      read_crs = (\<lambda>f n b e. (replicate (nat (e - b) + 1) 0, [], [])),
      read_dense = (\<lambda>f b e. replicate (nat (e - b)) 3)\<rparr>"

definition example_options :: "string option \<Rightarrow> string \<Rightarrow> bool \<Rightarrow> options" where
  "example_options A_file f bin =
     \<lparr>vm_matrix = A_file, vm_rhs = f, vm_binary = bin, vm_block_size = 1,
      vm_partitioner = merge, vm_size = 2, aggr_block = 1\<rparr>"

definition example_ops :: "(string, string, int) mpi_ops" where
  "example_ops =
     \<lparr>make_dmatrix = (\<lambda>comm strip. strip),
      part = (\<lambda>ptype shrink A bs. ''I''),
      transpose_m = (\<lambda>X. X @ ''^T''),
      product_m = (\<lambda>X Y. ''('' @ X @ ''*'' @ Y @ '')''),
      loc_rows = (\<lambda>X. 2),
      zero_x = 0,
      spmv_row = (\<lambda>alpha X x beta y i. sum_list x + int i)\<rparr>"

section \<open>Range assignment\<close>

lemma wrap64_id: "- (2 ^ 63) \<le> x \<Longrightarrow> x < 2 ^ 63 \<Longrightarrow> wrap64 x = x"
  by (simp add: wrap64_def)

lemma wrap32_id: "- (2 ^ 31) \<le> x \<Longrightarrow> x < 2 ^ 31 \<Longrightarrow> wrap32 x = x"
  by (simp add: wrap32_def)

lemma u64_id: "0 \<le> x \<Longrightarrow> x < 2 ^ 64 \<Longrightarrow> u64 x = nat x"
  by (simp add: u64_def)

lemma vector_size_ok: "0 \<le> x \<Longrightarrow> x < 2 ^ 60 \<Longrightarrow> \<not> vector_max_size < int (u64 x)"
  by (simp add: vector_max_size_def u64_def)

lemma round53_id: "\<bar>x\<bar> < 2 ^ 53 \<Longrightarrow> round53 x = x"
  by (simp add: round53_def)

lemma div64_pos: "0 < b \<Longrightarrow> div64 a b = Inr (a sdiv b)"
  by (simp add: div64_def)

lemma mod64_pos: "0 < b \<Longrightarrow> mod64 a b = Inr (a smod b)"
  by (simp add: mod64_def)

lemma sdiv_nonneg: "0 \<le> a \<Longrightarrow> 0 < b \<Longrightarrow> (a::int) sdiv b = a div b"
  by (simp add: signed_divide_int_def sgn_if)

lemma smod_nonneg: "0 \<le> a \<Longrightarrow> 0 < b \<Longrightarrow> (a::int) smod b = a mod b"
  by (simp add: signed_modulo_int_def sgn_if)

lemma ceiling_div_int:
  assumes "0 < (P::int)"
  shows "\<lceil>real_of_int N / real_of_int P\<rceil> = (N + P - 1) div P"
proof -
  define q where "q = (N + P - 1) div P"
  define r where "r = (N + P - 1) mod P"
  have r: "0 \<le> r" "r < P"
    using assms by (simp_all add: r_def)
  have "N + P - 1 = q * P + r"
    by (simp add: q_def r_def)
  then have "- N = P * (- q) + (P - 1 - r)"
    by (simp add: algebra_simps)
  moreover have "0 \<le> P - 1 - r" "P - 1 - r < P"
    using r by simp_all
  ultimately have "(- N) div P = - q"
    by (rule int_div_pos_eq)
  then show ?thesis
    by (simp add: ceiling_divide_eq_div q_def)
qed

lemma round_up_code_eq_spec:
  assumes "0 \<le> (c::int)" "0 < a"
  shows "(if c smod a \<noteq> 0 then c + (a - c smod a) else c)
       = (if a dvd c then c else (c div a + 1) * a)"
proof -
  have "c = c div a * a + c mod a"
    by simp
  then have "c + (a - c mod a) = (c div a + 1) * a"
    by (simp add: algebra_simps)
  then show ?thesis
    using assms by (simp add: smod_nonneg dvd_eq_mod_eq_0)
qed

lemma chunk_code_eq_spec:
  assumes "0 \<le> N" "1 \<le> P" "1 \<le> align"
  shows "(let chunk = (N + P - 1) sdiv P
          in if chunk smod align \<noteq> 0 then chunk + (align - chunk smod align) else chunk)
       = spec_chunk N P align"
proof -
  have c: "(N + P - 1) sdiv P = \<lceil>real_of_int N / real_of_int P\<rceil>"
    using assms by (simp add: sdiv_nonneg ceiling_div_int)
  have "0 \<le> (N + P - 1) div P"
    using assms by (simp add: pos_imp_zdiv_nonneg_iff)
  then have "0 \<le> \<lceil>real_of_int N / real_of_int P\<rceil>"
    using assms by (simp add: ceiling_div_int)
  then show ?thesis
    using assms round_up_code_eq_spec [of "\<lceil>real_of_int N / real_of_int P\<rceil>" align]
    unfolding spec_chunk_def Let_def c by simp
qed

lemma spec_chunk_multiple:
  "0 < align \<Longrightarrow> align dvd spec_chunk N P align"
  by (simp add: spec_chunk_def Let_def)

lemma round_up_ge:
  assumes "0 < (a::int)"
  shows "c \<le> (c div a + 1) * a"
proof -
  have "(c div a + 1) * a = c div a * a + a"
    by (simp add: algebra_simps)
  then show ?thesis
    using div_mult_mod_eq [of c a] pos_mod_bound [of a c] assms by linarith
qed

lemma round_up_less:
  assumes "0 < (a::int)" "\<not> a dvd c"
  shows "(c div a + 1) * a < c + a"
proof -
  have "(c div a + 1) * a = c div a * a + a"
    by (simp add: algebra_simps)
  moreover have "c mod a \<noteq> 0"
    using assms by (simp add: dvd_eq_mod_eq_0)
  ultimately show ?thesis
    using div_mult_mod_eq [of c a] pos_mod_sign [of a c] assms by linarith
qed

lemma spec_chunk_ge:
  "0 < align \<Longrightarrow> \<lceil>real_of_int N / real_of_int P\<rceil> \<le> spec_chunk N P align"
  by (simp add: spec_chunk_def Let_def round_up_ge)

lemma spec_chunk_less:
  "0 < align \<Longrightarrow> spec_chunk N P align < \<lceil>real_of_int N / real_of_int P\<rceil> + align"
  by (simp add: spec_chunk_def Let_def round_up_less)

lemma spec_chunk_nonneg:
  assumes "0 \<le> N" "1 \<le> P" "1 \<le> align"
  shows "0 \<le> spec_chunk N P align"
proof -
  have "0 \<le> (N + P - 1) div P"
    using assms by (simp add: pos_imp_zdiv_nonneg_iff)
  then have "0 \<le> \<lceil>real_of_int N / real_of_int P\<rceil>"
    using assms by (simp add: ceiling_div_int)
  then show ?thesis
    using spec_chunk_ge [of align N P] assms by linarith
qed

lemma spec_chunk_covers:
  assumes "0 \<le> N" "1 \<le> P" "1 \<le> align"
  shows "N \<le> spec_chunk N P align * P"
proof -
  have "real_of_int N / real_of_int P \<le> real_of_int \<lceil>real_of_int N / real_of_int P\<rceil>"
    by (rule le_of_int_ceiling)
  also have "\<dots> \<le> real_of_int (spec_chunk N P align)"
    using spec_chunk_ge [of align N P] assms by simp
  finally have "real_of_int N \<le> real_of_int (spec_chunk N P align) * real_of_int P"
    using assms by (simp add: pos_divide_le_eq)
  then have "real_of_int N \<le> real_of_int (spec_chunk N P align * P)"
    by simp
  then show ?thesis
    by (simp only: of_int_le_iff)
qed

lemma chunk_bounds:
  assumes "0 \<le> N" "N < 2 ^ 61" "1 \<le> P" "P < 2 ^ 31" "1 \<le> align" "align < 2 ^ 31"
  shows "0 \<le> spec_chunk N P align"
    and "spec_chunk N P align * P < 3 * 2 ^ 61"
    and "spec_chunk N P align \<le> spec_chunk N P align * P"
proof -
  define c where "c = spec_chunk N P align"
  define q where "q = (N + P - 1) div P"
  have c0: "0 \<le> c"
    using assms by (simp add: c_def spec_chunk_nonneg)
  have "c < q + align"
    using spec_chunk_less [of align N P] assms by (simp add: c_def q_def ceiling_div_int)
  then have "c \<le> q + (align - 1)"
    by simp
  then have "c * P \<le> (q + (align - 1)) * P"
    using assms(3) by (intro mult_right_mono) simp_all
  moreover have "(q + (align - 1)) * P = q * P + (align - 1) * P"
    by (simp add: algebra_simps)
  moreover have "q * P \<le> N + P - 1"
    using div_mult_mod_eq [of "N + P - 1" P] pos_mod_sign [of P "N + P - 1"] assms(3)
    unfolding q_def by linarith
  moreover have "(align - 1) * P \<le> (2 ^ 31 - 2) * (2 ^ 31 - 1)"
    using assms by (intro mult_mono) simp_all
  ultimately have "c * P \<le> N + P - 1 + (2 ^ 31 - 2) * (2 ^ 31 - 1)"
    by linarith
  then show "spec_chunk N P align * P < 3 * 2 ^ 61"
    using assms unfolding c_def by simp
  have "c * 1 \<le> c * P"
    using c0 assms(3) by (intro mult_left_mono) simp_all
  then show "spec_chunk N P align \<le> spec_chunk N P align * P"
    by (simp add: c_def)
  show "0 \<le> spec_chunk N P align"
    using c0 by (simp add: c_def)
qed

lemma row_range_spec:
  assumes "0 \<le> N" "N < 2 ^ 61" "1 \<le> P" "P < 2 ^ 31" "1 \<le> align" "align < 2 ^ 31"
    and "0 \<le> rank" "rank < P"
  shows "row_range \<lparr>comm_size = P, comm_rank = rank\<rparr> N align
           = Inr (min N (spec_chunk N P align * rank),
                  min N (min N (spec_chunk N P align * rank) + spec_chunk N P align))"
proof -
  define c where "c = spec_chunk N P align"
  define q where "q = (N + P - 1) sdiv P"
  define r where "r = q smod align"
  note cb = chunk_bounds [OF assms(1-6), folded c_def]
  have q: "q = (N + P - 1) div P"
    using assms by (simp add: q_def sdiv_nonneg)
  have q0: "0 \<le> q"
    using assms by (simp add: q pos_imp_zdiv_nonneg_iff)
  have "q * P \<le> N + P - 1"
    using div_mult_mod_eq [of "N + P - 1" P] pos_mod_sign [of P "N + P - 1"] assms(3)
    unfolding q by linarith
  moreover have "q * 1 \<le> q * P"
    using q0 assms(3) by (intro mult_left_mono) simp_all
  ultimately have q1: "q \<le> N + P - 1"
    by simp
  have r: "0 \<le> r" "r < align"
    using assms q0 by (simp_all add: r_def smod_nonneg)
  have w1: "wrap64 (wrap64 (N + P) - 1) = N + P - 1"
    using assms by (simp add: wrap64_id)
  have d: "div64 (N + P - 1) P = Inr q"
    using assms by (simp add: div64_pos q_def)
  have m: "mod64 q align = Inr r"
    using assms by (simp add: mod64_pos r_def)
  have w2: "wrap64 (q + wrap64 (align - r)) = q + (align - r)"
    using assms q0 q1 r by (simp add: wrap64_id)
  have c: "(if r \<noteq> 0 then q + (align - r) else q) = c"
    using chunk_code_eq_spec [OF assms(1,3,5)] unfolding Let_def q_def r_def c_def .
  have "c * rank \<le> c * P"
    using cb(1) assms(8) by (intro mult_left_mono) simp_all
  moreover have "0 \<le> c * rank"
    using cb(1) assms(7) by simp
  ultimately have w3: "wrap64 (c * rank) = c * rank"
    using cb(2) by (simp add: wrap64_id)
  define rb where "rb = min N (c * rank)"
  have "0 \<le> rb" "rb \<le> N"
    using assms(1) \<open>0 \<le> c * rank\<close> by (simp_all add: rb_def)
  then have "wrap64 (rb + c) = rb + c"
    using cb assms(2) by (simp add: wrap64_id)
  then have w4: "wrap64 (min N (c * rank) + c) = min N (c * rank) + c"
    by (simp add: rb_def)
  have "row_range \<lparr>comm_size = P, comm_rank = rank\<rparr> N align
          = Inr (min N (wrap64 (c * rank)), min N (wrap64 (min N (wrap64 (c * rank)) + c)))"
    unfolding row_range_def communicator.select_convs w1 d sum.case m Let_def w2 c ..
  then have "row_range \<lparr>comm_size = P, comm_rank = rank\<rparr> N align
          = Inr (min N (c * rank), min N (min N (c * rank) + c))"
    by (simp only: w3 w4)
  then show ?thesis
    unfolding c_def .
qed

lemma serena_row_range_spec:
  assumes "rows < 2 ^ 61" "1 \<le> P" "P < 2 ^ 31" "0 \<le> rank" "rank < P"
  shows "serena_row_range \<lparr>comm_size = P, comm_rank = rank\<rparr> rows
           = Inr (nat (fst (spec_assign (int rows) P rank 3)),
                  nat (snd (spec_assign (int rows) P rank 3)),
                  nat (snd (spec_assign (int rows) P rank 3) - fst (spec_assign (int rows) P rank 3)))"
proof -
  define c0 where "c0 = (rows + nat P - 1) div nat P"
  define c1 where "c1 = (if c0 mod B \<noteq> 0 then c0 + (B - c0 mod B) else c0)"
  define rb where "rb = min rows (c1 * nat rank)"
  define re where "re = min rows (rb + c1)"
  have P: "int (nat P) = P" "1 \<le> nat P"
    using assms by simp_all
  have "int (rows + nat P - 1) = int rows + P - 1"
    using P by (simp add: of_nat_diff)
  then have i0: "int c0 = (int rows + P - 1) sdiv P"
    using assms P by (simp add: c0_def zdiv_int sdiv_nonneg)
  have sm: "int c0 smod 3 = int (c0 mod 3)"
    by (simp add: smod_nonneg zmod_int)
  have "int c1 = (if int c0 smod 3 \<noteq> 0 then int c0 + (3 - int c0 smod 3) else int c0)"
  proof (cases "c0 mod 3 = 0")
    case True
    then show ?thesis
      unfolding sm by (simp add: c1_def B_def)
  next
    case False
    have "c0 mod 3 < 3"
      by simp
    then have "int (c0 + (3 - c0 mod 3)) = int c0 + (3 - int (c0 mod 3))"
      by (simp add: of_nat_diff)
    then show ?thesis
      unfolding sm using False by (simp add: c1_def B_def)
  qed
  moreover have "(if int c0 smod 3 \<noteq> 0 then int c0 + (3 - int c0 smod 3) else int c0)
                   = spec_chunk (int rows) P 3"
    using chunk_code_eq_spec [of "int rows" P 3] assms unfolding i0 Let_def by simp
  ultimately have i1: "int c1 = spec_chunk (int rows) P 3"
    by (rule trans)
  have int_min: "int (min a b) = min (int a) (int b)" for a b
    by (simp add: min_def)
  have m: "int (c1 * nat rank) = spec_chunk (int rows) P 3 * rank"
    using assms by (simp add: i1 [symmetric])
  have ib: "int rb = min (int rows) (spec_chunk (int rows) P 3 * rank)"
    unfolding rb_def int_min m ..
  have a: "int (rb + c1) = int rb + spec_chunk (int rows) P 3"
    by (simp add: i1 [symmetric])
  have ie: "int re = min (int rows) (int rb + spec_chunk (int rows) P 3)"
    unfolding re_def int_min a ..
  have le: "rb \<le> re"
    by (simp add: re_def rb_def)
  have cb: "0 \<le> int c1" "int c1 * P < 3 * 2 ^ 61" "int c1 \<le> int c1 * P"
    using chunk_bounds [of "int rows" P 3] assms unfolding i1 by simp_all
  have "int c1 * rank \<le> int c1 * P"
    using assms by (intro mult_left_mono) simp_all
  then have cr: "int (c1 * nat rank) < 2 ^ 64"
    using cb assms unfolding m i1 by simp
  have c0: "c0 \<le> rows + nat P - 1"
    by (simp add: c0_def)
  have rows: "int rows < 2 ^ 61"
    using assms(1) by (metis of_nat_less_iff of_nat_numeral of_nat_power)
  have rb: "rb \<le> rows" and re: "re \<le> rows"
    by (simp_all add: rb_def re_def)
  have s1: "u64 P = nat P" and s2: "u64 rank = nat rank"
    using assms by (simp_all add: u64_id)
  have e1: "u64 (int rows + int (nat P)) = rows + nat P"
    using assms rows by (simp add: u64_id nat_add_distrib)
  have e2: "u64 (int (rows + nat P) - 1) = rows + nat P - 1"
    using assms rows by (simp add: u64_id nat_diff_distrib' nat_add_distrib)
  have "c0 mod B < B"
    by (simp add: B_def)
  then have "int B - int (c0 mod B) = int (B - c0 mod B)"
    by (simp add: of_nat_diff)
  then have e3: "u64 (int B - int (c0 mod B)) = B - c0 mod B"
    by (simp add: u64_id B_def)
  have "int c0 \<le> int rows + P"
    using c0 assms by linarith
  then have "int (c0 + (B - c0 mod B)) < 2 ^ 64"
    using rows assms by (simp add: B_def)
  then have e4: "u64 (int c0 + int (B - c0 mod B)) = c0 + (B - c0 mod B)"
    using u64_id [of "int (c0 + (B - c0 mod B))"] by simp
  have "u64 (int (c1 * nat rank)) = nat (int (c1 * nat rank))"
    using cr by (intro u64_id) simp_all
  then have e5: "u64 (int c1 * int (nat rank)) = c1 * nat rank"
    by (simp only: of_nat_mult [symmetric] nat_int)
  have "int (rb + c1) < 2 ^ 64"
    using rb rows cb by simp
  then have e6: "u64 (int rb + int c1) = rb + c1"
    using u64_id [of "int (rb + c1)"] by simp
  have d: "int re - int rb = int (re - rb)"
    using le by (simp add: of_nat_diff)
  have "int (re - rb) < 2 ^ 64"
    using re rows by simp
  then have "u64 (int (re - rb)) = re - rb"
    using u64_id [of "int (re - rb)"] by simp
  then have e7: "u64 (int re - int rb) = re - rb"
    by (simp only: d)
  note es = e1 e2 e3 e4 e5 e6 e7
  note es' = es [unfolded re_def rb_def c1_def c0_def]
  have "nat P \<noteq> 0"
    using assms by simp
  then have "serena_row_range \<lparr>comm_size = P, comm_rank = rank\<rparr> rows = Inr (rb, re, re - rb)"
    unfolding serena_row_range_def Let_def communicator.select_convs s1 s2 es'
    unfolding re_def rb_def c1_def c0_def
    by (simp only: if_False)
  moreover have "spec_assign (int rows) P rank 3 = (int rb, int re)"
    by (simp add: spec_assign_def Let_def ib ie)
  ultimately show ?thesis
    using le by (simp add: nat_diff_distrib')
qed

text \<open>
  Claim C1. For a global size \<open>0 \<le> N < 2^61\<close>, a process count \<open>1 \<le> P < 2^31\<close>, a rank
  \<open>0 \<le> rank < P\<close> and an alignment \<open>1 \<le> align < 2^31\<close> (no computation of the source
  overflows there), the row range computed by the source is the one the specification
  describes: \<open>chunk = ceil (N / P)\<close> rounded up to the next multiple of \<open>align\<close> (the chunk
  is a multiple of \<open>align\<close>, at least the ceiling and less than the ceiling plus \<open>align\<close>),
  \<open>row_beg = min N (chunk * rank)\<close> and \<open>row_end = min N (row_beg + chunk)\<close>. The tutorial
  computes the same range with the alignment 3, on unsigned integers that do not wrap
  around within the same bounds.
  For \<open>N = 100\<close>, \<open>P = 3\<close>, \<open>align = 4\<close> the ranges of the ranks 0, 1, 2 are
  \<open>[0, 36)\<close>, \<open>[36, 72)\<close>, \<open>[72, 100)\<close>.
\<close>

theorem C1_row_range:
  "(0 \<le> N \<and> N < 2 ^ 61 \<and> 1 \<le> P \<and> P < 2 ^ 31 \<and> 0 \<le> rank \<and> rank < P
      \<and> 1 \<le> align \<and> align < 2 ^ 31 \<longrightarrow>
      row_range \<lparr>comm_size = P, comm_rank = rank\<rparr> N align = Inr (spec_assign N P rank align)
      \<and> align dvd spec_chunk N P align
      \<and> \<lceil>real_of_int N / real_of_int P\<rceil> \<le> spec_chunk N P align
      \<and> spec_chunk N P align < \<lceil>real_of_int N / real_of_int P\<rceil> + align)
   \<and> (rows < 2 ^ 61 \<and> 1 \<le> P \<and> P < 2 ^ 31 \<and> 0 \<le> rank \<and> rank < P \<longrightarrow>
      serena_row_range \<lparr>comm_size = P, comm_rank = rank\<rparr> rows
        = Inr (nat (fst (spec_assign (int rows) P rank 3)),
               nat (snd (spec_assign (int rows) P rank 3)),
               nat (snd (spec_assign (int rows) P rank 3) - fst (spec_assign (int rows) P rank 3))))
   \<and> row_range \<lparr>comm_size = 3, comm_rank = 0\<rparr> 100 4 = Inr (0, 36)
   \<and> row_range \<lparr>comm_size = 3, comm_rank = 1\<rparr> 100 4 = Inr (36, 72)
   \<and> row_range \<lparr>comm_size = 3, comm_rank = 2\<rparr> 100 4 = Inr (72, 100)"
proof -
  have "row_range \<lparr>comm_size = 3, comm_rank = 0\<rparr> 100 4 = Inr (0, 36)"
    by (simp add: row_range_def div64_def mod64_def wrap64_def Let_def
        signed_divide_int_def signed_modulo_int_def)
  moreover have "row_range \<lparr>comm_size = 3, comm_rank = 1\<rparr> 100 4 = Inr (36, 72)"
    by (simp add: row_range_def div64_def mod64_def wrap64_def Let_def
        signed_divide_int_def signed_modulo_int_def)
  moreover have "row_range \<lparr>comm_size = 3, comm_rank = 2\<rparr> 100 4 = Inr (72, 100)"
    by (simp add: row_range_def div64_def mod64_def wrap64_def Let_def
        signed_divide_int_def signed_modulo_int_def)
  moreover have "rows < 2 ^ 61 \<and> 1 \<le> P \<and> P < 2 ^ 31 \<and> 0 \<le> rank \<and> rank < P \<longrightarrow>
      serena_row_range \<lparr>comm_size = P, comm_rank = rank\<rparr> rows
        = Inr (nat (fst (spec_assign (int rows) P rank 3)),
               nat (snd (spec_assign (int rows) P rank 3)),
               nat (snd (spec_assign (int rows) P rank 3) - fst (spec_assign (int rows) P rank 3)))"
    using serena_row_range_spec by blast
  moreover have "0 \<le> N \<and> N < 2 ^ 61 \<and> 1 \<le> P \<and> P < 2 ^ 31 \<and> 0 \<le> rank \<and> rank < P
      \<and> 1 \<le> align \<and> align < 2 ^ 31 \<longrightarrow>
      row_range \<lparr>comm_size = P, comm_rank = rank\<rparr> N align = Inr (spec_assign N P rank align)
      \<and> align dvd spec_chunk N P align
      \<and> \<lceil>real_of_int N / real_of_int P\<rceil> \<le> spec_chunk N P align
      \<and> spec_chunk N P align < \<lceil>real_of_int N / real_of_int P\<rceil> + align"
    by (simp add: row_range_spec spec_assign_def Let_def
        spec_chunk_multiple spec_chunk_ge spec_chunk_less)
  ultimately show ?thesis
    by blast
qed

theorem C1_row_range_witness:
  "(0::int) \<le> 100 \<and> (100::int) < 2 ^ 61 \<and> (1::int) \<le> 3 \<and> (3::int) < 2 ^ 31
   \<and> (0::int) \<le> 2 \<and> (2::int) < 3 \<and> (1::int) \<le> 4 \<and> (4::int) < 2 ^ 31 \<and> (100::nat) < 2 ^ 61
   \<and> row_range \<lparr>comm_size = 3, comm_rank = 2\<rparr> 100 4 = Inr (spec_assign 100 3 2 4)
   \<and> spec_assign 100 3 2 4 = (72, 100)
   \<and> spec_chunk 100 3 4 = 36
   \<and> serena_row_range \<lparr>comm_size = 3, comm_rank = 2\<rparr> 100 = Inr (72, 100, 28)"
proof -
  have "spec_chunk 100 3 3 = 36" "spec_chunk 100 3 4 = 36"
    by (simp_all add: spec_chunk_def Let_def)
  then have "spec_assign 100 3 2 3 = (72, 100)" "spec_assign 100 3 2 4 = (72, 100)"
    by (simp_all add: spec_assign_def Let_def)
  then show ?thesis
    using C1_row_range [of 100 3 2 4 100] \<open>spec_chunk 100 3 4 = 36\<close> by simp
qed

lemma min_step:
  assumes "0 \<le> (c::int)"
  shows "min N (min N (c * r) + c) = min N (c * (r + 1))"
proof -
  have "c * (r + 1) = c * r + c"
    by (simp add: algebra_simps)
  then show ?thesis
    using assms by (simp add: min_def)
qed

lemma telescope:
  fixes f :: "int \<Rightarrow> int"
  assumes "0 \<le> k" "\<And>r. 0 \<le> r \<Longrightarrow> f r \<le> f (r + 1)"
  shows "(\<Union>r\<in>{0..<k}. {f r..<f (r + 1)}) = {f 0..<f k}"
  using assms(1)
proof (induction k rule: int_ge_induct)
  case base
  then show ?case by simp
next
  case (step i)
  have mono: "f 0 \<le> f i"
    using step(1)
  proof (induction i rule: int_ge_induct)
    case base
    then show ?case by simp
  next
    case (step j)
    then show ?case using assms(2) [of j] by linarith
  qed
  have "{0..<i + 1} = insert i {0..<i}"
    using step(1) by auto
  then have "(\<Union>r\<in>{0..<i + 1}. {f r..<f (r + 1)}) = {f i..<f (i + 1)} \<union> {f 0..<f i}"
    using step.IH by simp
  also have "\<dots> = {f 0..<f (i + 1)}"
    using mono assms(2) [of i] step(1) by auto
  finally show ?case .
qed

lemma poisson_loop_done: "row_end \<le> idx \<Longrightarrow> poisson_loop n h2i idx row_end s = s"
  by (subst poisson_loop.simps) simp

lemma poisson_loop_step:
  "idx < row_end \<Longrightarrow>
   poisson_loop n h2i idx row_end s = poisson_loop n h2i (idx + 1) row_end (poisson_row n h2i idx s)"
  by (subst poisson_loop.simps) simp

lemma cube_wrap:
  fixes n :: int
  assumes "0 \<le> n * n * n" "n * n * n < 2 ^ 63"
  shows "wrap64 (n * n) = n * n" "wrap64 (wrap64 (n * n) * n) = n * n * n" "0 \<le> n"
proof -
  show n0: "0 \<le> n"
  proof (rule ccontr)
    assume "\<not> 0 \<le> n"
    then have "n < 0" by simp
    then have "0 < n * n" by (simp add: zero_less_mult_iff)
    then have "n * n * n < 0" using \<open>n < 0\<close> by (simp add: mult_less_0_iff)
    then show False using assms(1) by simp
  qed
  define m where "m = n * n"
  have m0: "0 \<le> m" by (simp add: m_def)
  have "m \<le> m * n \<or> n = 0"
  proof (cases "n = 0")
    case False
    then have "1 \<le> n" using n0 by simp
    then have "m * 1 \<le> m * n" using m0 by (rule mult_left_mono)
    then show ?thesis by simp
  qed simp
  then have "m < 2 ^ 63"
    using assms(2) by (auto simp: m_def)
  then have w: "wrap64 m = m"
    using m0 by (simp add: wrap64_id)
  then show "wrap64 (n * n) = n * n" by (simp add: m_def)
  have "wrap64 (m * n) = m * n"
    using assms by (intro wrap64_id) (simp_all add: m_def)
  then show "wrap64 (wrap64 (n * n) * n) = n * n * n"
    using w by (simp add: m_def)
qed

lemma assemble_empty_range:
  assumes "row_range comm (wrap64 (wrap64 (n * n) * n)) align = Inr (b, b)"
  shows "assemble_poisson3d comm n align = Inr (0, \<lparr>ptr = [0], col = [], val = [], rhs = []\<rparr>)"
  using assms
  by (simp add: assemble_poisson3d_def Let_def poisson_loop_done wrap64_def u64_def
      vector_max_size_def)

lemma row_range_chunk:
  assumes "0 \<le> N" "N < 2 ^ 61" "1 \<le> P" "P < 2 ^ 31" "1 \<le> align" "align < 2 ^ 31"
    and "0 \<le> r" "r < P"
  shows "row_range \<lparr>comm_size = P, comm_rank = r\<rparr> N align
           = Inr (min N (spec_chunk N P align * r), min N (spec_chunk N P align * (r + 1)))"
  using assms by (simp add: row_range_spec min_step spec_chunk_nonneg)

text \<open>
  Claim C2. For \<open>0 \<le> N < 2^61\<close>, \<open>1 \<le> P < 2^31\<close> and \<open>1 \<le> align < 2^31\<close> (no computation
  of the source overflows there) the ranges of the ranks \<open>0, ..., P - 1\<close> partition
  \<open>[0, N)\<close>: every rank gets a range \<open>row_beg \<le> row_end\<close>, the
  first range starts at 0, each range ends where the next one starts, the last one ends at
  \<open>N\<close>, so the ranges cover \<open>[0, N)\<close> and no two of them overlap. The length of a range is a
  multiple of \<open>align\<close>, unless it is the last range that is not empty. An empty range lies
  at \<open>N\<close>, every later range is empty too, and the assembly of the Poisson problem on an
  empty range is no error: it returns an empty local chunk.
\<close>

theorem C2_partition:
  assumes "0 \<le> N" "N < 2 ^ 61" "1 \<le> P" "P < 2 ^ 31" "1 \<le> align" "align < 2 ^ 31"
  shows "\<exists>row_beg row_end.
      (\<forall>r\<in>{0..<P}. row_range \<lparr>comm_size = P, comm_rank = r\<rparr> N align = Inr (row_beg r, row_end r)
                     \<and> row_beg r \<le> row_end r)
    \<and> row_beg 0 = 0 \<and> row_end (P - 1) = N
    \<and> (\<forall>r\<in>{0..<P - 1}. row_end r = row_beg (r + 1))
    \<and> (\<Union>r\<in>{0..<P}. {row_beg r..<row_end r}) = {0..<N}
    \<and> (\<forall>r\<in>{0..<P}. \<forall>s\<in>{0..<P}. r \<noteq> s \<longrightarrow>
          {row_beg r..<row_end r} \<inter> {row_beg s..<row_end s} = {})
    \<and> (\<forall>r\<in>{0..<P}. align dvd (row_end r - row_beg r)
          \<or> (row_beg r < row_end r \<and> (\<forall>s\<in>{r<..<P}. row_beg s = row_end s)))
    \<and> (\<forall>r\<in>{0..<P}. row_beg r = row_end r \<longrightarrow>
          row_beg r = N \<and> (\<forall>s\<in>{r<..<P}. row_beg s = N \<and> row_end s = N)
          \<and> (\<forall>n. N = n * n * n \<longrightarrow>
                assemble_poisson3d \<lparr>comm_size = P, comm_rank = r\<rparr> n align
                  = Inr (0, \<lparr>ptr = [0], col = [], val = [], rhs = []\<rparr>)))"
proof -
  define c where "c = spec_chunk N P align"
  define f where "f = (\<lambda>r. min N (c * r))"
  have c0: "0 \<le> c"
    using assms by (simp add: c_def spec_chunk_nonneg)
  have cP: "N \<le> c * P"
    using spec_chunk_covers [OF assms(1,3,5)] by (simp add: c_def mult.commute)
  have dvd: "align dvd c"
    using assms by (simp add: c_def spec_chunk_multiple)
  have step: "c * (r + 1) = c * r + c" for r
    by (simp add: algebra_simps)
  have mono1: "f r \<le> f (r + 1)" for r
    using c0 step [of r] by (simp add: f_def min_def)
  have mono: "f r \<le> f s" if "r \<le> s" for r s
  proof -
    have "c * r \<le> c * s"
      using that c0 by (rule mult_left_mono)
    then show ?thesis
      by (simp add: f_def min_def)
  qed
  have rr: "row_range \<lparr>comm_size = P, comm_rank = r\<rparr> N align = Inr (f r, f (r + 1))"
    if "0 \<le> r" "r < P" for r
    using assms that by (simp add: row_range_chunk f_def c_def)
  have f0: "f 0 = 0"
    using assms by (simp add: f_def)
  have fP: "f P = N"
    using cP by (simp add: f_def)
  have cover: "(\<Union>r\<in>{0..<P}. {f r..<f (r + 1)}) = {0..<N}"
    using telescope [of P f] mono1 assms f0 fP by simp
  have disj: "{f r..<f (r + 1)} \<inter> {f s..<f (s + 1)} = {}" if "r \<noteq> s" for r s
  proof (cases "r < s")
    case True
    then have "f (r + 1) \<le> f s" by (intro mono) simp
    then show ?thesis by auto
  next
    case False
    with that have "f (s + 1) \<le> f r" by (intro mono) simp
    then show ?thesis by auto
  qed
  have tail: "f s = N" if "f (r + 1) - f r \<noteq> c" "r < s" for r s
  proof -
    have "N < c * (r + 1)"
      using that(1) c0 step [of r] by (simp add: f_def min_def split: if_splits)
    moreover have "c * (r + 1) \<le> c * s"
      using that(2) c0 by (intro mult_left_mono) simp_all
    ultimately show ?thesis
      by (simp add: f_def)
  qed
  have len: "align dvd (f (r + 1) - f r)
       \<or> (f r < f (r + 1) \<and> (\<forall>s\<in>{r<..<P}. f s = f (s + 1)))" for r
  proof (cases "f (r + 1) - f r = c")
    case True
    then show ?thesis using dvd by simp
  next
    case False
    then have "f s = N" if "r < s" for s
      using that tail by blast
    then have "\<forall>s\<in>{r<..<P}. f s = f (s + 1)"
      by simp
    then show ?thesis
      using mono1 [of r] by (cases "f r = f (r + 1)") auto
  qed
  have empty: "f r = N \<and> (\<forall>s\<in>{r<..<P}. f s = N \<and> f (s + 1) = N)" if "f r = f (r + 1)" "0 \<le> r" for r
  proof (cases "c = 0")
    case True
    then have "N = 0" using cP assms by simp
    then show ?thesis using True assms by (simp add: f_def)
  next
    case False
    then have "f (r + 1) - f r \<noteq> c" using that by simp
    then have t: "f s = N" if "r < s" for s
      using that tail by blast
    then have "f (r + 1) = N" by simp
    then show ?thesis using t that by simp
  qed
  have asm: "assemble_poisson3d \<lparr>comm_size = P, comm_rank = r\<rparr> n align
                  = Inr (0, \<lparr>ptr = [0], col = [], val = [], rhs = []\<rparr>)"
    if "f r = f (r + 1)" "0 \<le> r" "r < P" "N = n * n * n" for r n
  proof -
    have "wrap64 (wrap64 (n * n) * n) = N"
      using cube_wrap(2) [of n] assms(1,2) that(4) by simp
    then show ?thesis
      using rr [OF that(2,3)] that(1) by (intro assemble_empty_range [of _ _ _ "f r"]) simp
  qed
  have g1: "\<forall>r\<in>{0..<P}. row_range \<lparr>comm_size = P, comm_rank = r\<rparr> N align = Inr (f r, f (r + 1))
                     \<and> f r \<le> f (r + 1)"
    using rr mono1 by simp
  have g2: "f 0 = 0 \<and> f (P - 1 + 1) = N"
    using f0 fP by simp
  have g3: "\<forall>r\<in>{0..<P - 1}. f (r + 1) = f (r + 1)"
    by simp
  have g4: "\<forall>r\<in>{0..<P}. \<forall>s\<in>{0..<P}. r \<noteq> s \<longrightarrow>
          {f r..<f (r + 1)} \<inter> {f s..<f (s + 1)} = {}"
    using disj by blast
  have g5: "\<forall>r\<in>{0..<P}. align dvd (f (r + 1) - f r)
          \<or> (f r < f (r + 1) \<and> (\<forall>s\<in>{r<..<P}. f s = f (s + 1)))"
    using len by blast
  have g6: "\<forall>r\<in>{0..<P}. f r = f (r + 1) \<longrightarrow>
          f r = N \<and> (\<forall>s\<in>{r<..<P}. f s = N \<and> f (s + 1) = N)
          \<and> (\<forall>n. N = n * n * n \<longrightarrow>
                assemble_poisson3d \<lparr>comm_size = P, comm_rank = r\<rparr> n align
                  = Inr (0, \<lparr>ptr = [0], col = [], val = [], rhs = []\<rparr>))"
  proof (intro ballI impI)
    fix r assume r: "r \<in> {0..<P}" and e: "f r = f (r + 1)"
    from r have r0: "0 \<le> r" and rP: "r < P" by simp_all
    have "\<forall>n. N = n * n * n \<longrightarrow>
                assemble_poisson3d \<lparr>comm_size = P, comm_rank = r\<rparr> n align
                  = Inr (0, \<lparr>ptr = [0], col = [], val = [], rhs = []\<rparr>)"
      using asm [OF e r0 rP] by blast
    with empty [OF e r0]
    show "f r = N \<and> (\<forall>s\<in>{r<..<P}. f s = N \<and> f (s + 1) = N)
          \<and> (\<forall>n. N = n * n * n \<longrightarrow>
                assemble_poisson3d \<lparr>comm_size = P, comm_rank = r\<rparr> n align
                  = Inr (0, \<lparr>ptr = [0], col = [], val = [], rhs = []\<rparr>))"
      by blast
  qed
  show ?thesis
    apply (rule exI [of _ f], rule exI [of _ "\<lambda>r. f (r + 1)"])
    using g1 g2 g3 cover g4 g5 g6 by blast
qed

theorem C2_partition_witness:
  "((0::int) \<le> 8 \<and> (8::int) < 2 ^ 61 \<and> (1::int) \<le> 3 \<and> (3::int) < 2 ^ 31
    \<and> (1::int) \<le> 4 \<and> (4::int) < 2 ^ 31
    \<and> row_range \<lparr>comm_size = 3, comm_rank = 0\<rparr> 8 4 = Inr (0, 4)
    \<and> row_range \<lparr>comm_size = 3, comm_rank = 1\<rparr> 8 4 = Inr (4, 8)
    \<and> row_range \<lparr>comm_size = 3, comm_rank = 2\<rparr> 8 4 = Inr (8, 8))
   \<and> (\<exists>row_beg row_end.
      (\<forall>r\<in>{0..<3}. row_range \<lparr>comm_size = 3, comm_rank = r\<rparr> 8 4 = Inr (row_beg r, row_end r)
                     \<and> row_beg r \<le> row_end r)
    \<and> row_beg 0 = 0 \<and> row_end (3 - 1) = 8
    \<and> (\<forall>r\<in>{0..<3 - 1}. row_end r = row_beg (r + 1))
    \<and> (\<Union>r\<in>{0..<3}. {row_beg r..<row_end r}) = {0..<8}
    \<and> (\<forall>r\<in>{0..<3}. \<forall>s\<in>{0..<3}. r \<noteq> s \<longrightarrow>
          {row_beg r..<row_end r} \<inter> {row_beg s..<row_end s} = {})
    \<and> (\<forall>r\<in>{0..<3}. 4 dvd (row_end r - row_beg r)
          \<or> (row_beg r < row_end r \<and> (\<forall>s\<in>{r<..<3}. row_beg s = row_end s)))
    \<and> (\<forall>r\<in>{0..<3}. row_beg r = row_end r \<longrightarrow>
          row_beg r = 8 \<and> (\<forall>s\<in>{r<..<3}. row_beg s = 8 \<and> row_end s = 8)
          \<and> (\<forall>n. 8 = n * n * n \<longrightarrow>
                assemble_poisson3d \<lparr>comm_size = 3, comm_rank = r\<rparr> n 4
                  = Inr (0, \<lparr>ptr = [0], col = [], val = [], rhs = []\<rparr>))))"
proof -
  have n: "(0::int) \<le> 8 \<and> (8::int) < 2 ^ 61 \<and> (1::int) \<le> 3 \<and> (3::int) < 2 ^ 31
    \<and> (1::int) \<le> 4 \<and> (4::int) < 2 ^ 31
    \<and> row_range \<lparr>comm_size = 3, comm_rank = 0\<rparr> 8 4 = Inr (0, 4)
    \<and> row_range \<lparr>comm_size = 3, comm_rank = 1\<rparr> 8 4 = Inr (4, 8)
    \<and> row_range \<lparr>comm_size = 3, comm_rank = 2\<rparr> 8 4 = Inr (8, 8)"
    by (simp add: row_range_def div64_def mod64_def wrap64_def Let_def
        signed_divide_int_def signed_modulo_int_def)
  show ?thesis
    by (rule conjI [OF n C2_partition]) simp_all
qed

section \<open>Assembly of the Poisson problem\<close>

lemma poisson_row_stencil:
  "poisson_row n h2i idx s =
     s\<lparr>col := col s @ map fst (stencil n h2i idx),
       val := val s @ map snd (stencil n h2i idx),
       ptr := ptr s @ [int (length (col s) + length (stencil n h2i idx))]\<rparr>"
  by (simp add: poisson_row_def stencil_def Let_def push_entry_def)

lemma slice_append_left:
  assumes "0 \<le> a" "b \<le> int (length xs)"
  shows "slice (xs @ ys) a b = slice xs a b"
proof (cases "a \<le> b")
  case True
  then show ?thesis
    using assms by (simp add: slice_def)
next
  case False
  then show ?thesis
    by (simp add: slice_def)
qed

lemma slice_append_right:
  "slice (xs @ ys) (int (length xs)) (int (length xs + length ys)) = ys"
  by (simp add: slice_def)

lemma poisson_loop_invariant:
  assumes "Inv idx s"
    and "\<And>i t. idx \<le> i \<Longrightarrow> i < row_end \<Longrightarrow> Inv i t \<Longrightarrow> Inv (i + 1) (poisson_row n h2i i t)"
    and "idx \<le> row_end"
  shows "Inv row_end (poisson_loop n h2i idx row_end s)"
  using assms
proof (induction n h2i idx row_end s rule: poisson_loop.induct)
  case (1 n h2i idx row_end s)
  show ?case
  proof (cases "idx < row_end")
    case True
    have "Inv row_end (poisson_loop n h2i (idx + 1) row_end (poisson_row n h2i idx s))"
    proof (rule "1.IH" [OF True])
      show "Inv (idx + 1) (poisson_row n h2i idx s)"
        using "1.prems"(1) True by (intro "1.prems"(2)) simp_all
      show "Inv (i + 1) (poisson_row n h2i i t)"
        if "idx + 1 \<le> i" "i < row_end" "Inv i t" for i t
        using that by (intro "1.prems"(2)) simp_all
      show "idx + 1 \<le> row_end"
        using True by simp
    qed
    then show ?thesis
      using True by (simp add: poisson_loop_step)
  next
    case False
    then have "idx = row_end"
      using "1.prems"(3) by simp
    then show ?thesis
      using "1.prems"(1) by (simp add: poisson_loop_done)
  qed
qed

lemma rows_ok_step:
  assumes "rows_ok n h2i row_beg s m"
  shows "rows_ok n h2i row_beg (poisson_row n h2i (row_beg + int m) s) (m + 1)"
proof -
  let ?st = "stencil n h2i (row_beg + int m)"
  let ?s' = "poisson_row n h2i (row_beg + int m) s"
  have len: "length (ptr s) = m + 1" and p0: "ptr s ! 0 = 0"
    and pm: "ptr s ! m = int (length (col s))" and lv: "length (val s) = length (col s)"
    and bnd: "\<And>i. i \<le> m \<Longrightarrow> 0 \<le> ptr s ! i \<and> ptr s ! i \<le> int (length (col s))"
    and rows: "\<And>i. i < m \<Longrightarrow> ptr s ! i \<le> ptr s ! (i + 1)
                \<and> row_cols s i = map fst (stencil n h2i (row_beg + int i))
                \<and> row_vals s i = map snd (stencil n h2i (row_beg + int i))"
    using assms by (simp_all add: rows_ok_def)
  have ptr': "ptr ?s' = ptr s @ [int (length (col s) + length ?st)]"
    and col': "col ?s' = col s @ map fst ?st"
    and val': "val ?s' = val s @ map snd ?st"
    by (simp_all add: poisson_row_stencil)
  have old: "ptr ?s' ! i = ptr s ! i" if "i \<le> m" for i
    using that len by (simp add: ptr' nth_append)
  have new: "ptr ?s' ! (m + 1) = int (length (col s) + length ?st)"
    using len by (simp add: ptr' nth_append)
  have row_old: "row_cols ?s' i = row_cols s i \<and> row_vals ?s' i = row_vals s i" if "i < m" for i
  proof -
    have "0 \<le> ptr s ! i" "ptr s ! (i + 1) \<le> int (length (col s))"
      using bnd [of i] bnd [of "i + 1"] that by simp_all
    moreover have "ptr s ! (i + 1) \<le> int (length (val s))"
      using bnd [of "i + 1"] that lv by simp
    ultimately show ?thesis
      using that old [of i] old [of "i + 1"]
      by (simp add: row_cols_def row_vals_def col' val' slice_append_left)
  qed
  have row_new: "row_cols ?s' m = map fst ?st \<and> row_vals ?s' m = map snd ?st"
  proof -
    have "slice (col s @ map fst ?st) (int (length (col s))) (int (length (col s) + length ?st))
            = map fst ?st"
      using slice_append_right [of "col s" "map fst ?st"] by simp
    moreover have "slice (val s @ map snd ?st) (int (length (col s))) (int (length (col s) + length ?st))
            = map snd ?st"
      using slice_append_right [of "val s" "map snd ?st"] lv by simp
    ultimately show ?thesis
      using old [of m] new pm
      by (simp add: row_cols_def row_vals_def col' val')
  qed
  have "length (ptr ?s') = m + 1 + 1"
    using len by (simp add: ptr')
  moreover have "ptr ?s' ! 0 = 0"
    using old [of 0] p0 by simp
  moreover have "ptr ?s' ! (m + 1) = int (length (col ?s'))"
    using new by (simp add: col')
  moreover have "length (val ?s') = length (col ?s')"
    using lv by (simp add: col' val')
  moreover have "0 \<le> ptr ?s' ! i \<and> ptr ?s' ! i \<le> int (length (col ?s'))" if "i \<le> m + 1" for i
  proof (cases "i \<le> m")
    case True
    then show ?thesis using old [of i] bnd [of i] by (simp add: col')
  next
    case False
    then have "i = m + 1" using that by simp
    then show ?thesis using new by (simp add: col')
  qed
  moreover have "ptr ?s' ! i \<le> ptr ?s' ! (i + 1)
       \<and> row_cols ?s' i = map fst (stencil n h2i (row_beg + int i))
       \<and> row_vals ?s' i = map snd (stencil n h2i (row_beg + int i))" if "i < m + 1" for i
  proof (cases "i < m")
    case True
    then show ?thesis
      using old [of i] old [of "i + 1"] rows [of i] row_old [of i] by simp
  next
    case False
    then have "i = m" using that by simp
    then show ?thesis
      using old [of m] new pm row_new by simp
  qed
  ultimately show ?thesis
    unfolding rows_ok_def by blast
qed

lemma grid_coordinates:
  fixes n idx :: int
  assumes "1 \<le> n" "0 \<le> idx" "idx < n * n * n"
  defines "k \<equiv> idx div (n * n)" and "j \<equiv> (idx div n) mod n" and "i \<equiv> idx mod n"
  shows "idx sdiv (n * n) = k" "(idx sdiv n) smod n = j" "idx smod n = i"
    and "0 \<le> k" "k < n" "0 \<le> j" "j < n" "0 \<le> i" "i < n"
    and "idx = k * (n * n) + j * n + i"
proof -
  have n0: "0 < n" "0 < n * n"
    using assms(1) by simp_all
  have q0: "0 \<le> idx div n"
    using assms n0 by (simp add: pos_imp_zdiv_nonneg_iff)
  show "idx sdiv (n * n) = k" "idx smod n = i"
    using assms n0 by (simp_all add: sdiv_nonneg smod_nonneg k_def i_def)
  show "(idx sdiv n) smod n = j"
    using assms n0 q0 by (simp add: sdiv_nonneg smod_nonneg j_def)
  show "0 \<le> k"
    using assms n0 by (simp add: k_def pos_imp_zdiv_nonneg_iff)
  show "k < n"
  proof (rule ccontr)
    assume "\<not> k < n"
    then have "n * (n * n) \<le> k * (n * n)"
      using n0 by (intro mult_right_mono) simp_all
    moreover have "k * (n * n) \<le> idx"
      using n0 div_mult_mod_eq [of idx "n * n"] pos_mod_sign [of "n * n" idx]
      unfolding k_def by linarith
    ultimately show False
      using assms(3) by (simp add: mult.assoc)
  qed
  show "0 \<le> j" "j < n" "0 \<le> i" "i < n"
    using n0 by (simp_all add: j_def i_def)
  have kq: "k = (idx div n) div n"
    using n0 by (simp add: k_def zdiv_zmult2_eq)
  have "idx div n = k * n + j"
    by (simp add: kq j_def)
  moreover have "idx = (idx div n) * n + i"
    by (simp add: i_def)
  ultimately have "idx = (k * n + j) * n + i"
    by simp
  then show "idx = k * (n * n) + j * n + i"
    by (simp add: algebra_simps)
qed

lemma grid_bounds:
  fixes n :: int
  assumes "1 \<le> n" "n \<le> 2 ^ 20"
  shows "1 \<le> n * n" "n * n \<le> 2 ^ 40" "1 \<le> n * n * n" "n * n * n \<le> 2 ^ 60" "n \<le> n * n"
proof -
  have "n * n \<le> 2 ^ 20 * 2 ^ 20"
    using assms by (intro mult_mono) simp_all
  then show a: "n * n \<le> 2 ^ 40" by simp
  have "1 * 1 \<le> n * n"
    using assms by (intro mult_mono) simp_all
  then show b: "1 \<le> n * n" by simp
  have "n * n * n \<le> 2 ^ 40 * 2 ^ 20"
    using assms a b by (intro mult_mono) simp_all
  then show "n * n * n \<le> 2 ^ 60" by simp
  have "1 * 1 \<le> n * n * n"
    using assms b by (intro mult_mono) simp_all
  then show "1 \<le> n * n * n" by simp
  have "n * 1 \<le> n * n"
    using assms by (intro mult_left_mono) simp_all
  then show "n \<le> n * n" by simp
qed

lemma stencil_plain:
  fixes n idx h2i :: int
  assumes "1 \<le> n" "n \<le> 2 ^ 20" "0 \<le> idx" "idx < n * n * n" "\<bar>6 * h2i\<bar> < 2 ^ 53"
  shows "stencil n h2i idx =
      (if idx div (n * n) > 0 then [(idx - n * n, - real_of_int h2i)] else [])
      @ (if (idx div n) mod n > 0 then [(idx - n, - real_of_int h2i)] else [])
      @ (if idx mod n > 0 then [(idx - 1, - real_of_int h2i)] else [])
      @ [(idx, real_of_int (6 * h2i))]
      @ (if idx mod n + 1 < n then [(idx + 1, - real_of_int h2i)] else [])
      @ (if (idx div n) mod n + 1 < n then [(idx + n, - real_of_int h2i)] else [])
      @ (if idx div (n * n) + 1 < n then [(idx + n * n, - real_of_int h2i)] else [])"
proof -
  note g = grid_coordinates [OF assms(1,3,4)]
  note b = grid_bounds [OF assms(1,2)]
  define k j i where "k = idx div (n * n)" and "j = (idx div n) mod n" and "i = idx mod n"
  note g' = g [folded k_def j_def i_def]
  define m where "m = n * n"
  have m: "1 \<le> m" "m \<le> 2 ^ 40" "n \<le> m"
    using b by (simp_all add: m_def)
  have i3: "idx < 2 ^ 60"
    using assms(4) b(4) by simp
  have wm: "wrap64 (n * n) = n * n"
    using m unfolding m_def by (intro wrap64_id) simp_all
  have "wrap64 (idx - m) = idx - m" "wrap64 (idx + m) = idx + m"
    "wrap64 (idx - n) = idx - n" "wrap64 (idx + n) = idx + n"
    "wrap64 (idx - 1) = idx - 1" "wrap64 (idx + 1) = idx + 1"
    using m assms(1-3) i3 by (simp_all add: wrap64_id)
  note w1 = this [unfolded m_def]
  have w2: "wrap64 (k + 1) = k + 1" "wrap64 (j + 1) = j + 1" "wrap64 (i + 1) = i + 1"
    using g'(4-9) assms(2) by (simp_all add: wrap64_id)
  have r: "round53 (6 * h2i) = 6 * h2i"
    using assms(5) by (rule round53_id)
  show ?thesis
    unfolding stencil_def Let_def wm g(1-3) r
    unfolding k_def [symmetric] j_def [symmetric] i_def [symmetric]
    unfolding w1 w2 ..
qed

lemma stencil_spec_cols:
  fixes n idx h2i :: int
  assumes "1 \<le> n" "n \<le> 2 ^ 20" "0 \<le> idx" "idx < n * n * n" "\<bar>6 * h2i\<bar> < 2 ^ 53"
  shows "map fst (stencil n h2i idx) = spec_row_cols n idx"
proof -
  note g = grid_coordinates [OF assms(1,3,4)]
  define k j i where "k = idx div (n * n)" and "j = (idx div n) mod n" and "i = idx mod n"
  note g' = g [folded k_def j_def i_def]
  show ?thesis
    unfolding stencil_plain [OF assms] spec_row_cols_def Let_def in_grid_def
    unfolding k_def [symmetric] j_def [symmetric] i_def [symmetric]
    using g'(4-9) by simp
qed

lemma h2i_bounds:
  fixes n :: int
  assumes "1 \<le> n" "n \<le> 2 ^ 20"
  shows "round53 (wrap64 (wrap64 (n - 1) * wrap64 (n - 1))) = (n - 1) * (n - 1)"
    and "\<bar>6 * ((n - 1) * (n - 1))\<bar> < 2 ^ 53"
proof -
  define a where "a = n - 1"
  have a: "0 \<le> a" "a < 2 ^ 20"
    using assms by (simp_all add: a_def)
  define q where "q = a * a"
  have "a * a \<le> 2 ^ 20 * 2 ^ 20"
    using a by (intro mult_mono) simp_all
  then have aa: "q \<le> 2 ^ 40" "0 \<le> q"
    by (simp_all add: q_def)
  have w: "wrap64 a = a"
    using a by (simp add: wrap64_id)
  have ww: "wrap64 (a * a) = a * a"
    unfolding q_def [symmetric] using aa by (simp add: wrap64_id)
  have "round53 (a * a) = a * a"
    unfolding q_def [symmetric] using aa by (intro round53_id) simp
  then show "round53 (wrap64 (wrap64 (n - 1) * wrap64 (n - 1))) = (n - 1) * (n - 1)"
    unfolding a_def [symmetric] w ww .
  show "\<bar>6 * ((n - 1) * (n - 1))\<bar> < 2 ^ 53"
    unfolding a_def [symmetric] q_def [symmetric] using aa by simp
qed

lemma stencil_spec_row:
  fixes n idx :: int
  assumes "2 \<le> n" "n \<le> 2 ^ 20" "0 \<le> idx" "idx < n * n * n"
  shows "set (stencil n ((n - 1) * (n - 1)) idx) = spec_row n idx"
proof -
  have n1: "1 \<le> n" using assms(1) by simp
  note g = grid_coordinates [OF n1 assms(3,4)]
  have h: "1 / (1 / real_of_int (n - 1))\<^sup>2 = real_of_int ((n - 1) * (n - 1))"
    using assms(1) by (simp add: power2_eq_square)
  have h6: "real_of_int (6 * ((n - 1) * (n - 1))) = 6 * real_of_int ((n - 1) * (n - 1))"
    by simp
  define k j i where "k = idx div (n * n)" and "j = (idx div n) mod n" and "i = idx mod n"
  note g' = g [folded k_def j_def i_def]
  show ?thesis
    unfolding stencil_plain [OF n1 assms(2-4) h2i_bounds(2) [OF n1 assms(2)]]
      spec_row_def Let_def h h6 in_grid_def
    unfolding k_def [symmetric] j_def [symmetric] i_def [symmetric]
    using g'(4-9) by auto
qed

lemma stencil_sorted:
  fixes n idx h2i :: int
  assumes "2 \<le> n" "n \<le> 2 ^ 20" "0 \<le> idx" "idx < n * n * n" "\<bar>6 * h2i\<bar> < 2 ^ 53"
  shows "sorted_wrt (<) (map fst (stencil n h2i idx))"
proof -
  have n1: "1 \<le> n" using assms(1) by simp
  have "n * 2 \<le> n * n"
    using assms by (intro mult_left_mono) simp_all
  then have "1 < n * n" "- (n * n) < n" "- n < n * n" "- 1 < n * n" "1 < n"
    using assms by linarith+
  then show ?thesis
    unfolding stencil_plain [OF n1 assms(2-5)] by simp
qed

lemma stencil_length: "length (stencil n h2i idx) \<le> 7" "1 \<le> length (stencil n h2i idx)"
  by (simp_all add: stencil_def Let_def)

lemma stencil_bounds:
  fixes n idx h2i :: int
  assumes "1 \<le> n" "n \<le> 2 ^ 20" "0 \<le> idx" "idx < n * n * n" "\<bar>6 * h2i\<bar> < 2 ^ 53"
    and "c \<in> set (map fst (stencil n h2i idx))"
  shows "0 \<le> c \<and> c < n * n * n"
proof -
  note g = grid_coordinates [OF assms(1,3,4)]
  define k j i where "k = idx div (n * n)" and "j = (idx div n) mod n" and "i = idx mod n"
  note g' = g [folded k_def j_def i_def]
  define N2 N3 A Bv where "N2 = n * n" and "N3 = n * n * n" and "A = k * (n * n)" and "Bv = j * n"
  have idx: "idx = A + Bv + i"
    using g'(10) by (simp add: A_def Bv_def)
  have i: "0 \<le> i" "i < n"
    using g'(8,9) .
  have A0: "0 \<le> A" and B0: "0 \<le> Bv"
    using g'(4,6) assms(1) by (simp_all add: A_def Bv_def)
  have "k * (n * n) \<le> (n - 1) * (n * n)"
    using g'(5) assms(1) by (intro mult_right_mono) simp_all
  then have A1: "A \<le> N3 - N2"
    by (simp add: A_def N3_def N2_def algebra_simps)
  have "j * n \<le> (n - 1) * n"
    using g'(7) assms(1) by (intro mult_right_mono) simp_all
  then have B1: "Bv \<le> N2 - n"
    by (simp add: Bv_def N2_def algebra_simps)
  have A2: "A + N2 \<le> N3 - N2" if "k + 1 < n"
  proof -
    have "(k + 1) * (n * n) \<le> (n - 1) * (n * n)"
      using that assms(1) by (intro mult_right_mono) simp_all
    then show ?thesis
      by (simp add: A_def N3_def N2_def algebra_simps)
  qed
  have B2: "Bv + n \<le> N2 - n" if "j + 1 < n"
  proof -
    have "(j + 1) * n \<le> (n - 1) * n"
      using that assms(1) by (intro mult_right_mono) simp_all
    then show ?thesis
      by (simp add: Bv_def N2_def algebra_simps)
  qed
  have A3: "N2 \<le> A" if "0 < k"
  proof -
    have "1 * (n * n) \<le> k * (n * n)"
      using that assms(1) by (intro mult_right_mono) simp_all
    then show ?thesis
      by (simp add: A_def N2_def)
  qed
  have B3: "n \<le> Bv" if "0 < j"
  proof -
    have "1 * n \<le> j * n"
      using that assms(1) by (intro mult_right_mono) simp_all
    then show ?thesis
      by (simp add: Bv_def)
  qed
  have "c \<in> set (map fst
      ((if k > 0 then [(idx - N2, - real_of_int h2i)] else [])
         @ (if j > 0 then [(idx - n, - real_of_int h2i)] else [])
         @ (if i > 0 then [(idx - 1, - real_of_int h2i)] else [])
         @ [(idx, real_of_int (6 * h2i))]
         @ (if i + 1 < n then [(idx + 1, - real_of_int h2i)] else [])
         @ (if j + 1 < n then [(idx + n, - real_of_int h2i)] else [])
         @ (if k + 1 < n then [(idx + N2, - real_of_int h2i)] else [])))"
    using assms(6) unfolding stencil_plain [OF assms(1-5)] k_def j_def i_def N2_def .
  then consider "c = idx" | "0 < k" "c = idx - N2" | "0 < j" "c = idx - n" | "0 < i" "c = idx - 1"
    | "i + 1 < n" "c = idx + 1" | "j + 1 < n" "c = idx + n" | "k + 1 < n" "c = idx + N2"
    by (auto split: if_splits)
  then have "0 \<le> c \<and> c < N3"
  proof cases
    case 1
    then show ?thesis using idx i A0 B0 A1 B1 by linarith
  next
    case 2
    then show ?thesis using idx i A0 B0 A1 B1 A3 by linarith
  next
    case 3
    then show ?thesis using idx i A0 B0 A1 B1 B3 by linarith
  next
    case 4
    then show ?thesis using idx i A0 B0 A1 B1 by linarith
  next
    case 5
    then show ?thesis using idx i A0 B0 A1 B1 by linarith
  next
    case 6
    then show ?thesis using idx i A0 B0 A1 B1 B2 by linarith
  next
    case 7
    then show ?thesis using idx i A0 B0 A1 B1 A2 by linarith
  qed
  then show ?thesis
    by (simp add: N3_def)
qed

lemma rows_ok_entries:
  assumes "rows_ok n h2i row_beg s m" "i < m"
  shows "row_entries s i = stencil n h2i (row_beg + int i)"
  using assms by (simp add: rows_ok_def row_entries_def zip_map_fst_snd)

lemma rows_ok_init:
  "rows_ok n h2i row_beg \<lparr>ptr = [0], col = [], val = [], rhs = r\<rparr> 0"
  by (simp add: rows_ok_def)

lemma poisson_loop_rows:
  fixes n :: int and h2i :: int and r :: "real list"
  assumes "row_beg \<le> row_end"
  defines "s \<equiv> poisson_loop n h2i row_beg row_end \<lparr>ptr = [0], col = [], val = [], rhs = r\<rparr>"
  shows "rows_ok n h2i row_beg s (nat (row_end - row_beg))" and "rhs s = r"
proof -
  let ?Inv = "\<lambda>i t. row_beg \<le> i \<and> rows_ok n h2i row_beg t (nat (i - row_beg)) \<and> rhs t = r"
  have "?Inv row_end s"
    unfolding s_def
  proof (rule poisson_loop_invariant [where Inv = ?Inv])
    show "?Inv row_beg \<lparr>ptr = [0], col = [], val = [], rhs = r\<rparr>"
      by (simp add: rows_ok_init)
    show "?Inv (i + 1) (poisson_row n h2i i t)" if "row_beg \<le> i" "i < row_end" "?Inv i t" for i t
    proof -
      have "nat (i + 1 - row_beg) = nat (i - row_beg) + 1" "row_beg + int (nat (i - row_beg)) = i"
        using that(1) by simp_all
      then show ?thesis
        using rows_ok_step [of n h2i row_beg t "nat (i - row_beg)"] that
        by (simp add: poisson_row_stencil)
    qed
    show "row_beg \<le> row_end" by (rule assms(1))
  qed
  then show "rows_ok n h2i row_beg s (nat (row_end - row_beg))" and "rhs s = r"
    by simp_all
qed

lemma poisson_loop_cols:
  fixes n h2i :: int
  assumes "1 \<le> n" "n \<le> 2 ^ 20" "\<bar>6 * h2i\<bar> < 2 ^ 53"
    and "0 \<le> row_beg" "row_beg \<le> row_end" "row_end \<le> n * n * n"
  shows "\<forall>c\<in>set (col (poisson_loop n h2i row_beg row_end \<lparr>ptr = [0], col = [], val = [], rhs = r\<rparr>)).
           0 \<le> c \<and> c < n * n * n"
proof (rule poisson_loop_invariant [where Inv = "\<lambda>i t. \<forall>c\<in>set (col t). 0 \<le> c \<and> c < n * n * n"])
  show "\<forall>c\<in>set (col \<lparr>ptr = [0], col = [], val = [], rhs = r\<rparr>). 0 \<le> c \<and> c < n * n * n"
    by simp
  show "\<forall>c\<in>set (col (poisson_row n h2i i t)). 0 \<le> c \<and> c < n * n * n"
    if "row_beg \<le> i" "i < row_end" "\<forall>c\<in>set (col t). 0 \<le> c \<and> c < n * n * n" for i t
  proof -
    have "0 \<le> i" "i < n * n * n"
      using that(1,2) assms(4,6) by simp_all
    then have "\<forall>c\<in>set (map fst (stencil n h2i i)). 0 \<le> c \<and> c < n * n * n"
      using stencil_bounds [OF assms(1,2) _ _ assms(3)] by blast
    then show ?thesis
      using that(3) by (auto simp add: poisson_row_stencil)
  qed
  show "row_beg \<le> row_end" by (rule assms(5))
qed

lemma row_range_bounds:
  assumes "0 \<le> N" "N < 2 ^ 61" "1 \<le> P" "P < 2 ^ 31" "1 \<le> align" "align < 2 ^ 31"
    and "0 \<le> r" "r < P"
  obtains row_beg row_end where
    "row_range \<lparr>comm_size = P, comm_rank = r\<rparr> N align = Inr (row_beg, row_end)"
    "0 \<le> row_beg" "row_beg \<le> row_end" "row_end \<le> N"
proof -
  define c where "c = spec_chunk N P align"
  have c0: "0 \<le> c"
    using assms by (simp add: c_def spec_chunk_nonneg)
  have "c * (r + 1) = c * r + c"
    by (simp add: algebra_simps)
  then have "min N (c * r) \<le> min N (c * (r + 1))"
    using c0 by (simp add: min_def)
  moreover have "0 \<le> min N (c * r)"
    using c0 assms by simp
  moreover have "min N (c * (r + 1)) \<le> N"
    by simp
  moreover have "row_range \<lparr>comm_size = P, comm_rank = r\<rparr> N align
        = Inr (min N (c * r), min N (c * (r + 1)))"
    using assms by (simp add: row_range_chunk c_def)
  ultimately show thesis
    using that by blast
qed

lemma assemble_poisson3d_loop:
  fixes n :: int
  assumes "row_range comm (n * n * n) align = Inr (row_beg, row_end)"
    and "0 \<le> row_beg" "row_beg \<le> row_end" "row_end \<le> n * n * n" "n * n * n \<le> 2 ^ 57"
  shows "assemble_poisson3d comm n align =
           Inr (row_end - row_beg,
                poisson_loop n (round53 (wrap64 (wrap64 (n - 1) * wrap64 (n - 1)))) row_beg row_end
                  \<lparr>ptr = [0], col = [], val = [], rhs = replicate (nat (row_end - row_beg)) 1\<rparr>)"
proof -
  define c where "c = row_end - row_beg"
  define N where "N = n * n * n"
  have N: "0 \<le> N" "N \<le> 2 ^ 57"
    using assms(2-5) by (simp_all add: N_def)
  have c: "0 \<le> c" "c \<le> 2 ^ 57"
    using assms(2-4) N by (simp_all add: c_def N_def)
  have "0 \<le> n * n * n" "n * n * n < 2 ^ 63"
    using N by (simp_all add: N_def)
  then have n2: "wrap64 (n * n) = n * n" and n3: "wrap64 (n * n * n) = n * n * n"
    and n0: "0 \<le> n"
    using cube_wrap [of n] by simp_all
  have wc: "wrap64 c = c" "wrap64 (c + 1) = c + 1" "wrap64 (c * 7) = c * 7"
    using c by (simp_all add: wrap64_id)
  have g: "\<not> (vector_max_size < int (u64 (c + 1)) \<or> vector_max_size < int (u64 (c * 7))
         \<or> vector_max_size < int (u64 c))"
    using c by (simp add: vector_size_ok)
  have "n * n \<noteq> 0" if "row_beg < row_end"
  proof
    assume "n * n = 0"
    then have "n * n * n = 0" by simp
    then show False using that assms(2,4) by simp
  qed
  then have z: "\<not> (row_beg < row_end \<and> n * n = 0)"
    "\<not> (row_beg < row_end \<and> row_beg = - (2 ^ 63) \<and> (n = - 1 \<or> n * n = - 1))"
    using assms(2) by auto
  show ?thesis
    unfolding assemble_poisson3d_def Let_def n2 n3
    unfolding assms(1) sum.case prod.case
    unfolding c_def [symmetric] wc
    using g z by simp
qed

lemma assemble_poisson3d_result:
  fixes n :: int
  assumes "row_range comm (n * n * n) align = Inr (row_beg, row_end)"
    and "0 \<le> row_beg" "row_beg \<le> row_end" "row_end \<le> n * n * n" "1 \<le> n" "n \<le> 2 ^ 19"
  shows "assemble_poisson3d comm n align =
           Inr (row_end - row_beg,
                poisson_loop n ((n - 1) * (n - 1)) row_beg row_end
                  \<lparr>ptr = [0], col = [], val = [], rhs = replicate (nat (row_end - row_beg)) 1\<rparr>)"
proof -
  have n20: "n \<le> 2 ^ 20"
    using assms(6) by simp
  have "n * n \<le> 2 ^ 19 * 2 ^ 19"
    using assms(5,6) by (intro mult_mono) simp_all
  moreover have "0 \<le> n * n"
    by simp
  ultimately have "n * n * n \<le> 2 ^ 38 * 2 ^ 19"
    using assms(5,6) by (intro mult_mono) simp_all
  then have "n * n * n \<le> 2 ^ 57"
    by simp
  then show ?thesis
    using assemble_poisson3d_loop [OF assms(1-4)] h2i_bounds(1) [OF assms(5) n20] by simp
qed

text \<open>
  Claim C5. For a grid side \<open>2 \<le> n \<le> 2^19\<close> (and \<open>1 \<le> P < 2^31\<close> processes, a rank
  \<open>0 \<le> rank < P\<close>, an alignment \<open>1 \<le> align < 2^31\<close>: no computation of the source overflows
  there, and no vector is asked for more than \<^verbatim>\<open>max_size()\<close> elements) the assembly
  succeeds, and for every row index \<open>idx\<close> of the assigned range the
  entries of the row are those of the specification: with \<open>k = idx / (n * n)\<close>,
  \<open>j = (idx / n) mod n\<close>, \<open>i = idx mod n\<close> and \<open>h = 1 / (n - 1)\<close>, the diagonal entry
  \<open>6 * h^-2\<close> and an entry \<open>- h^-2\<close> for each axis neighbour whose coordinate stays in
  \<open>[0, n)\<close>; no column occurs twice, and there are no other entries.
\<close>

theorem C5_poisson_rows:
  assumes "2 \<le> n" "n \<le> 2 ^ 19" "1 \<le> P" "P < 2 ^ 31" "0 \<le> rank" "rank < P"
    and "1 \<le> align" "align < 2 ^ 31"
  shows "\<exists>row_beg row_end s.
      row_range \<lparr>comm_size = P, comm_rank = rank\<rparr> (n * n * n) align = Inr (row_beg, row_end)
    \<and> assemble_poisson3d \<lparr>comm_size = P, comm_rank = rank\<rparr> n align = Inr (row_end - row_beg, s)
    \<and> (\<forall>idx. row_beg \<le> idx \<and> idx < row_end \<longrightarrow>
          set (row_entries s (nat (idx - row_beg))) = spec_row n idx
          \<and> distinct (map fst (row_entries s (nat (idx - row_beg))))
          \<and> length (row_entries s (nat (idx - row_beg))) \<le> 7)"
proof -
  have n1: "1 \<le> n" and n20: "n \<le> 2 ^ 20"
    using assms(1,2) by simp_all
  have n3: "0 \<le> n * n * n" "n * n * n < 2 ^ 61"
    using grid_bounds(3,4) [OF n1 n20] by simp_all
  note hb = h2i_bounds(2) [OF n1 n20]
  obtain row_beg row_end where
    rr: "row_range \<lparr>comm_size = P, comm_rank = rank\<rparr> (n * n * n) align = Inr (row_beg, row_end)"
    and b: "0 \<le> row_beg" "row_beg \<le> row_end" "row_end \<le> n * n * n"
    using row_range_bounds [OF n3 assms(3,4,7,8,5,6)] by blast
  define h2i where "h2i = (n - 1) * (n - 1)"
  define s where "s = poisson_loop n h2i row_beg row_end
      \<lparr>ptr = [0], col = [], val = [], rhs = replicate (nat (row_end - row_beg)) 1\<rparr>"
  have asm: "assemble_poisson3d \<lparr>comm_size = P, comm_rank = rank\<rparr> n align
               = Inr (row_end - row_beg, s)"
    using assemble_poisson3d_result [OF rr b n1 assms(2)] by (simp add: s_def h2i_def)
  have ok: "rows_ok n h2i row_beg s (nat (row_end - row_beg))"
    unfolding s_def using b(2) by (rule poisson_loop_rows)
  have row: "set (row_entries s (nat (idx - row_beg))) = spec_row n idx
          \<and> distinct (map fst (row_entries s (nat (idx - row_beg))))
          \<and> length (row_entries s (nat (idx - row_beg))) \<le> 7"
    if "row_beg \<le> idx" "idx < row_end" for idx
  proof -
    have "nat (idx - row_beg) < nat (row_end - row_beg)"
      using that by simp
    then have "row_entries s (nat (idx - row_beg)) = stencil n h2i (row_beg + int (nat (idx - row_beg)))"
      using ok by (rule rows_ok_entries [rotated])
    then have e: "row_entries s (nat (idx - row_beg)) = stencil n h2i idx"
      using that(1) by simp
    have i: "0 \<le> idx" "idx < n * n * n"
      using that b by simp_all
    have "sorted_wrt (<) (map fst (stencil n h2i idx))"
      using assms(1) n20 i hb unfolding h2i_def by (rule stencil_sorted)
    then have "distinct (map fst (stencil n h2i idx))"
      by (simp add: strict_sorted_iff)
    then show ?thesis
      using stencil_spec_row [OF assms(1) n20 i] stencil_length(1) [of n h2i idx]
      by (simp add: e h2i_def)
  qed
  show ?thesis
    using rr asm row by blast
qed

theorem C5_poisson_rows_witness:
  "((2::int) \<le> 2 \<and> (2::int) \<le> 2 ^ 19 \<and> (1::int) \<le> 1 \<and> (1::int) < 2 ^ 31
     \<and> (0::int) \<le> 0 \<and> (0::int) < 1 \<and> (1::int) \<le> 1 \<and> (1::int) < 2 ^ 31
     \<and> spec_row 2 5 = {(1, - 1), (4, - 1), (5, 6), (7, - 1)})
   \<and> (\<exists>row_beg row_end s.
      row_range \<lparr>comm_size = 1, comm_rank = 0\<rparr> (2 * 2 * 2) 1 = Inr (row_beg, row_end)
    \<and> assemble_poisson3d \<lparr>comm_size = 1, comm_rank = 0\<rparr> 2 1 = Inr (row_end - row_beg, s)
    \<and> (\<forall>idx. row_beg \<le> idx \<and> idx < row_end \<longrightarrow>
          set (row_entries s (nat (idx - row_beg))) = spec_row 2 idx
          \<and> distinct (map fst (row_entries s (nat (idx - row_beg))))
          \<and> length (row_entries s (nat (idx - row_beg))) \<le> 7))"
proof -
  have n: "(2::int) \<le> 2 \<and> (2::int) \<le> 2 ^ 19 \<and> (1::int) \<le> 1 \<and> (1::int) < 2 ^ 31
     \<and> (0::int) \<le> 0 \<and> (0::int) < 1 \<and> (1::int) \<le> 1 \<and> (1::int) < 2 ^ 31
     \<and> spec_row 2 5 = {(1, - 1), (4, - 1), (5, 6), (7, - 1)}"
    by (auto simp add: spec_row_def Let_def in_grid_def)
  show ?thesis
    by (rule conjI [OF n C5_poisson_rows]) simp_all
qed

lemma rows_ok_sorted_ptr:
  assumes "rows_ok n h2i row_beg s m"
  shows "sorted (ptr s)"
  using assms by (simp add: rows_ok_def sorted_iff_nth_Suc)

text \<open>
  Claim C9. For \<open>2 \<le> n \<le> 2^19\<close> (and \<open>1 \<le> P < 2^31\<close> processes, a rank \<open>0 \<le> rank < P\<close>, an
  alignment \<open>1 \<le> align < 2^31\<close>: no computation of the source overflows there, and no vector
  is asked for more than \<^verbatim>\<open>max_size()\<close> elements) the assembly returns
  \<open>chunk = row_end - row_beg\<close> for the assigned range; the columns of every assembled row
  are the candidates
  \<open>idx - n * n\<close>, \<open>idx - n\<close>, \<open>idx - 1\<close>, \<open>idx\<close>, \<open>idx + 1\<close>, \<open>idx + n\<close>, \<open>idx + n * n\<close> in this
  order, each present only when in bounds, and they increase strictly; every column
  index lies in \<open>[0, n^3)\<close>; the row pointers are \<open>chunk + 1\<close> non-decreasing values starting
  at 0 (and ending at the number of stored entries); the returned \<open>chunk\<close> is
  \<open>ptr.size() - 1\<close> and \<open>rhs.size()\<close>.
\<close>

theorem C9_poisson_invariants:
  assumes "2 \<le> n" "n \<le> 2 ^ 19" "1 \<le> P" "P < 2 ^ 31" "0 \<le> rank" "rank < P"
    and "1 \<le> align" "align < 2 ^ 31"
  shows "\<exists>row_beg row_end chunk s.
      row_range \<lparr>comm_size = P, comm_rank = rank\<rparr> (n * n * n) align = Inr (row_beg, row_end)
    \<and> assemble_poisson3d \<lparr>comm_size = P, comm_rank = rank\<rparr> n align = Inr (chunk, s)
    \<and> chunk = row_end - row_beg
    \<and> (\<forall>i<nat chunk. row_cols s i = spec_row_cols n (row_beg + int i)
                       \<and> sorted_wrt (<) (row_cols s i))
    \<and> (\<forall>c\<in>set (col s). 0 \<le> c \<and> c < n ^ 3)
    \<and> length (ptr s) = nat chunk + 1 \<and> ptr s ! 0 = 0 \<and> sorted (ptr s)
    \<and> last (ptr s) = int (length (col s)) \<and> length (val s) = length (col s)
    \<and> chunk = int (length (ptr s)) - 1 \<and> chunk = int (length (rhs s))"
proof -
  have n1: "1 \<le> n" and n20: "n \<le> 2 ^ 20"
    using assms(1,2) by simp_all
  have n3: "0 \<le> n * n * n" "n * n * n < 2 ^ 61"
    using grid_bounds(3,4) [OF n1 n20] by simp_all
  note hb = h2i_bounds(2) [OF n1 n20]
  obtain row_beg row_end where
    rr: "row_range \<lparr>comm_size = P, comm_rank = rank\<rparr> (n * n * n) align = Inr (row_beg, row_end)"
    and b: "0 \<le> row_beg" "row_beg \<le> row_end" "row_end \<le> n * n * n"
    using row_range_bounds [OF n3 assms(3,4,7,8,5,6)] by blast
  define chunk where "chunk = row_end - row_beg"
  define h2i where "h2i = (n - 1) * (n - 1)"
  define s where "s = poisson_loop n h2i row_beg row_end
      \<lparr>ptr = [0], col = [], val = [], rhs = replicate (nat (row_end - row_beg)) 1\<rparr>"
  have asm: "assemble_poisson3d \<lparr>comm_size = P, comm_rank = rank\<rparr> n align = Inr (chunk, s)"
    using assemble_poisson3d_result [OF rr b n1 assms(2)] by (simp add: s_def h2i_def chunk_def)
  have ok: "rows_ok n h2i row_beg s (nat chunk)"
    unfolding s_def chunk_def using b(2) by (rule poisson_loop_rows)
  have rhs: "rhs s = replicate (nat chunk) 1"
    unfolding s_def chunk_def using b(2) by (rule poisson_loop_rows)
  have rows: "row_cols s i = spec_row_cols n (row_beg + int i) \<and> sorted_wrt (<) (row_cols s i)"
    if "i < nat chunk" for i
  proof -
    have c: "row_cols s i = map fst (stencil n h2i (row_beg + int i))"
      using ok that by (simp add: rows_ok_def)
    have i: "0 \<le> row_beg + int i" "row_beg + int i < n * n * n"
      using that b by (simp_all add: chunk_def)
    have "map fst (stencil n h2i (row_beg + int i)) = spec_row_cols n (row_beg + int i)"
      using n1 n20 i hb unfolding h2i_def by (rule stencil_spec_cols)
    moreover have "sorted_wrt (<) (map fst (stencil n h2i (row_beg + int i)))"
      using assms(1) n20 i hb unfolding h2i_def by (rule stencil_sorted)
    ultimately show ?thesis
      by (simp add: c)
  qed
  have cols: "\<forall>c\<in>set (col s). 0 \<le> c \<and> c < n ^ 3"
    using poisson_loop_cols [OF n1 n20 hb b, of "replicate (nat (row_end - row_beg)) 1"]
    by (simp add: s_def h2i_def power3_eq_cube)
  have len: "length (ptr s) = nat chunk + 1" and p0: "ptr s ! 0 = 0"
    and pl: "ptr s ! nat chunk = int (length (col s))" and lv: "length (val s) = length (col s)"
    using ok by (simp_all add: rows_ok_def)
  have last: "last (ptr s) = int (length (col s))"
    using len pl by (simp add: last_conv_nth [of "ptr s"] length_greater_0_conv [symmetric] del: length_greater_0_conv)
  have c1: "chunk = int (length (ptr s)) - 1"
    using len b(2) by (simp add: chunk_def)
  have c2: "chunk = int (length (rhs s))"
    using b(2) by (simp add: rhs chunk_def)
  show ?thesis
    using rr asm chunk_def rows cols len p0 rows_ok_sorted_ptr [OF ok] last lv c1 c2 by blast
qed

theorem C9_poisson_invariants_witness:
  "((2::int) \<le> 2 \<and> (2::int) \<le> 2 ^ 19 \<and> (1::int) \<le> 1 \<and> (1::int) < 2 ^ 31
     \<and> (0::int) \<le> 0 \<and> (0::int) < 1 \<and> (1::int) \<le> 1 \<and> (1::int) < 2 ^ 31
     \<and> spec_row_cols 2 5 = [1, 4, 5, 7])
   \<and> (\<exists>row_beg row_end chunk s.
      row_range \<lparr>comm_size = 1, comm_rank = 0\<rparr> (2 * 2 * 2) 1 = Inr (row_beg, row_end)
    \<and> assemble_poisson3d \<lparr>comm_size = 1, comm_rank = 0\<rparr> 2 1 = Inr (chunk, s)
    \<and> chunk = row_end - row_beg
    \<and> (\<forall>i<nat chunk. row_cols s i = spec_row_cols 2 (row_beg + int i)
                       \<and> sorted_wrt (<) (row_cols s i))
    \<and> (\<forall>c\<in>set (col s). 0 \<le> c \<and> c < 2 ^ 3)
    \<and> length (ptr s) = nat chunk + 1 \<and> ptr s ! 0 = 0 \<and> sorted (ptr s)
    \<and> last (ptr s) = int (length (col s)) \<and> length (val s) = length (col s)
    \<and> chunk = int (length (ptr s)) - 1 \<and> chunk = int (length (rhs s)))"
proof -
  have n: "(2::int) \<le> 2 \<and> (2::int) \<le> 2 ^ 19 \<and> (1::int) \<le> 1 \<and> (1::int) < 2 ^ 31
     \<and> (0::int) \<le> 0 \<and> (0::int) < 1 \<and> (1::int) \<le> 1 \<and> (1::int) < 2 ^ 31
     \<and> spec_row_cols 2 5 = [1, 4, 5, 7]"
    by (simp add: spec_row_cols_def Let_def in_grid_def)
  show ?thesis
    by (rule conjI [OF n C9_poisson_invariants]) simp_all
qed

lemma stencil_corner: "stencil 4 9 0 = [(0, 54), (1, - 9), (4, - 9), (16, - 9)]"
  by (simp add: stencil_def Let_def wrap64_def round53_def)

lemma assemble_n4:
  obtains s where "assemble_poisson3d \<lparr>comm_size = 1, comm_rank = 0\<rparr> 4 1 = Inr (64, s)"
    "row_entries s 0 = [(0, 54), (1, - 9), (4, - 9), (16, - 9)]" "rhs s = replicate 64 1"
proof -
  define s where "s = poisson_loop 4 9 0 64 \<lparr>ptr = [0], col = [], val = [], rhs = replicate 64 1\<rparr>"
  have rr: "row_range \<lparr>comm_size = 1, comm_rank = 0\<rparr> (4 * 4 * 4) 1 = Inr (0, 64)"
    by (simp add: row_range_def div64_def mod64_def wrap64_def Let_def signed_modulo_int_def)
  have "assemble_poisson3d \<lparr>comm_size = 1, comm_rank = 0\<rparr> 4 1 = Inr (64, s)"
    using assemble_poisson3d_result [OF rr] by (simp add: s_def)
  moreover have "rows_ok 4 9 0 s (nat (64 - 0))" and "rhs s = replicate 64 1"
    unfolding s_def by (rule poisson_loop_rows, simp)+
  then have "row_entries s 0 = stencil 4 9 (0 + int 0)" and "rhs s = replicate 64 1"
    by (simp_all add: rows_ok_entries)
  ultimately show thesis
    using that by (simp add: stencil_corner)
qed

text \<open>
  Claim C6 says that for \<open>n = 4\<close>, one process and block size 1 the row 0 has exactly 3
  non-zeros, the diagonal and two neighbours. The assembled row has 4 entries: the grid
  point \<open>i = j = k = 0\<close> of a three-dimensional grid has three neighbours.
\<close>

theorem C6_counterexample:
  "\<not> isl (assemble_poisson3d \<lparr>comm_size = 1, comm_rank = 0\<rparr> 4 1)
   \<and> fst (projr (assemble_poisson3d \<lparr>comm_size = 1, comm_rank = 0\<rparr> 4 1)) = 64
   \<and> row_entries (snd (projr (assemble_poisson3d \<lparr>comm_size = 1, comm_rank = 0\<rparr> 4 1))) 0
       = [(0, 54), (1, - 9), (4, - 9), (16, - 9)]
   \<and> length (row_entries (snd (projr (assemble_poisson3d \<lparr>comm_size = 1, comm_rank = 0\<rparr> 4 1))) 0)
       \<noteq> 3"
proof -
  obtain s where "assemble_poisson3d \<lparr>comm_size = 1, comm_rank = 0\<rparr> 4 1 = Inr (64, s)"
    "row_entries s 0 = [(0, 54), (1, - 9), (4, - 9), (16, - 9)]"
    by (rule assemble_n4)
  then show ?thesis
    by simp
qed

text \<open>
  Claim C6, amended. For \<open>n = 4\<close> (\<open>N = 64\<close>), one process and block size 1 the row 0 has
  exactly 4 non-zeros: the diagonal \<open>6 * 3^2 = 54\<close> and the three neighbours in the columns
  1, 4 and 16 with the value \<open>- 9\<close> each; the right-hand side is 64 ones.
\<close>

theorem C6_corner_row:
  "\<exists>s. assemble_poisson3d \<lparr>comm_size = 1, comm_rank = 0\<rparr> 4 1 = Inr (64, s)
      \<and> row_entries s 0 = [(0, 6 * 3\<^sup>2), (1, - (3\<^sup>2)), (4, - (3\<^sup>2)), (16, - (3\<^sup>2))]
      \<and> length (row_entries s 0) = 4
      \<and> rhs s = replicate 64 1"
proof -
  obtain s where "assemble_poisson3d \<lparr>comm_size = 1, comm_rank = 0\<rparr> 4 1 = Inr (64, s)"
    "row_entries s 0 = [(0, 54), (1, - 9), (4, - 9), (16, - 9)]" "rhs s = replicate 64 1"
    by (rule assemble_n4)
  then show ?thesis
    by simp
qed

section \<open>Right-hand side and block-size dispatch\<close>

lemma assemble_rhs:
  fixes n :: int
  assumes "row_range comm (n * n * n) align = Inr (row_beg, row_end)"
    and "0 \<le> row_beg" "row_beg \<le> row_end" "row_end \<le> n * n * n" "n * n * n \<le> 2 ^ 57"
  obtains s where "assemble_poisson3d comm n align = Inr (row_end - row_beg, s)"
    "rhs s = replicate (nat (row_end - row_beg)) 1"
  using assemble_poisson3d_loop [OF assms] poisson_loop_rows(2) [OF assms(3)] by blast

text \<open>
  Claim C8. For every problem source of \<^verbatim>\<open>main\<close>, with \<open>1 \<le> P < 2^31\<close> processes, a rank
  \<open>0 \<le> rank < P\<close>, an alignment \<open>1 \<le> block_size * aggr_block < 2^31\<close> and a global size
  \<open>0 \<le> N \<le> 2^57\<close> (the product of the two \<^verbatim>\<open>int\<close> and the computations on \<^verbatim>\<open>ptrdiff_t\<close> do
  not overflow there, and no vector is asked for more than \<^verbatim>\<open>max_size()\<close> elements), the source
  succeeds on the range \<open>[row_beg, row_end)\<close> of the process and returns
  \<open>row_end - row_beg\<close> as the local size. When the problem is assembled or no
  right-hand-side file is given, the right-hand side is \<open>row_end - row_beg\<close> ones. When a
  matrix file and a right-hand-side file are given, the right-hand side is what the reader
  of the format returns for that file and the range \<open>[row_beg, row_end)\<close>.
\<close>

theorem C8_right_hand_side:
  assumes "1 \<le> comm_size comm" "comm_size comm < 2 ^ 31"
    and "0 \<le> comm_rank comm" "comm_rank comm < comm_size comm"
    and "1 \<le> vm_block_size vm * aggr_block vm" "vm_block_size vm * aggr_block vm < 2 ^ 31"
    and "0 \<le> global_rows io vm" "global_rows io vm \<le> 2 ^ 57"
  shows "\<exists>row_beg row_end s.
      row_range comm (global_rows io vm) (vm_block_size vm * aggr_block vm) = Inr (row_beg, row_end)
    \<and> row_beg \<le> row_end
    \<and> problem_source io comm vm = Inr (row_end - row_beg, s)
    \<and> (vm_matrix vm = None \<or> vm_rhs vm = [] \<longrightarrow>
          rhs s = replicate (nat (row_end - row_beg)) 1
          \<and> int (length (rhs s)) = row_end - row_beg)
    \<and> (vm_matrix vm \<noteq> None \<and> vm_rhs vm \<noteq> [] \<longrightarrow>
          rhs s = (if vm_binary vm then read_dense io (vm_rhs vm) row_beg row_end
                   else mm_vector io (vm_rhs vm) row_beg row_end))"
proof -
  define align where "align = vm_block_size vm * aggr_block vm"
  define N where "N = global_rows io vm"
  have comm: "comm = \<lparr>comm_size = comm_size comm, comm_rank = comm_rank comm\<rparr>"
    by simp
  have a: "1 \<le> align" "align < 2 ^ 31"
    using assms(5,6) by (simp_all add: align_def)
  have wa: "wrap32 (vm_block_size vm * aggr_block vm) = align"
    unfolding align_def [symmetric] using a by (simp add: wrap32_id)
  have N: "0 \<le> N" "N \<le> 2 ^ 57" "N < 2 ^ 61"
    using assms(7,8) by (simp_all add: N_def)
  obtain row_beg row_end where
    rr: "row_range comm N align = Inr (row_beg, row_end)"
    and b: "0 \<le> row_beg" "row_beg \<le> row_end" "row_end \<le> N"
    using row_range_bounds [OF N(1,3) assms(1,2) a assms(3,4)] comm by metis
  define c where "c = row_end - row_beg"
  have c: "0 \<le> c" "c < 2 ^ 60"
    using b N(2) by (simp_all add: c_def)
  have wc: "wrap64 (row_end - row_beg) = c"
    unfolding c_def [symmetric] using c by (simp add: wrap64_id)
  have vs: "\<not> vector_max_size < int (u64 c)"
    using c by (rule vector_size_ok)
  have len: "int (length (replicate (nat c) (1::real))) = c"
    using c(1) by simp
  have goal: ?thesis if "problem_source io comm vm = Inr (c, s)"
    "vm_matrix vm = None \<or> vm_rhs vm = [] \<Longrightarrow> rhs s = replicate (nat c) 1"
    "vm_matrix vm \<noteq> None \<Longrightarrow> vm_rhs vm \<noteq> [] \<Longrightarrow>
       rhs s = (if vm_binary vm then read_dense io (vm_rhs vm) row_beg row_end
                else mm_vector io (vm_rhs vm) row_beg row_end)" for s
  proof -
    have "row_range comm (global_rows io vm) (vm_block_size vm * aggr_block vm)
            = Inr (row_beg, row_end)"
      using rr by (simp add: N_def align_def)
    moreover have "problem_source io comm vm = Inr (row_end - row_beg, s)"
      using that(1) by (simp add: c_def)
    moreover have "vm_matrix vm = None \<or> vm_rhs vm = [] \<longrightarrow>
          rhs s = replicate (nat (row_end - row_beg)) 1
          \<and> int (length (rhs s)) = row_end - row_beg"
      using that(2) len by (simp add: c_def)
    moreover have "vm_matrix vm \<noteq> None \<and> vm_rhs vm \<noteq> [] \<longrightarrow>
          rhs s = (if vm_binary vm then read_dense io (vm_rhs vm) row_beg row_end
                   else mm_vector io (vm_rhs vm) row_beg row_end)"
      using that(3) by simp
    ultimately show ?thesis
      using b(2) by (intro exI conjI)
  qed
  show ?thesis
  proof (cases "vm_matrix vm")
    case None
    then have g: "N = vm_size vm * vm_size vm * vm_size vm"
      by (simp add: N_def global_rows_def)
    obtain s where "assemble_poisson3d comm (vm_size vm) align = Inr (row_end - row_beg, s)"
      "rhs s = replicate (nat (row_end - row_beg)) 1"
      using assemble_rhs [OF rr [unfolded g] b [unfolded g] N(2) [unfolded g]] by blast
    then have "problem_source io comm vm = Inr (c, s)" "rhs s = replicate (nat c) 1"
      using None by (simp_all add: problem_source_def wa c_def)
    then show ?thesis
      using None by (intro goal [of s]) simp_all
  next
    case (Some A_file)
    show ?thesis
    proof (cases "vm_binary vm")
      case True
      then have g: "N = crs_size io A_file"
        using Some by (simp add: N_def global_rows_def)
      obtain p cs v where rd: "read_crs io A_file (crs_size io A_file) row_beg row_end = (p, cs, v)"
        by (cases "read_crs io A_file (crs_size io A_file) row_beg row_end") blast
      define s where "s = \<lparr>ptr = p, col = cs, val = v,
          rhs = (if vm_rhs vm = [] then replicate (nat c) 1
                 else read_dense io (vm_rhs vm) row_beg row_end)\<rparr>"
      have "read_binary io comm A_file (vm_rhs vm) align = Inr (c, s)"
        unfolding read_binary_def Let_def g [symmetric] rr sum.case prod.case wc
        unfolding g rd prod.case
        using vs by (simp add: s_def)
      then have "problem_source io comm vm = Inr (c, s)"
        using Some True by (simp add: problem_source_def wa)
      then show ?thesis
        using Some True by (intro goal [of s]) (simp_all add: s_def)
    next
      case False
      then have g: "N = mm_rows io A_file"
        using Some by (simp add: N_def global_rows_def)
      obtain p cs v where rd: "mm_matrix io A_file row_beg row_end = (p, cs, v)"
        by (cases "mm_matrix io A_file row_beg row_end") blast
      define s where "s = \<lparr>ptr = p, col = cs, val = v,
          rhs = (if vm_rhs vm = [] then replicate (nat c) 1
                 else mm_vector io (vm_rhs vm) row_beg row_end)\<rparr>"
      have "read_matrix_market io comm A_file (vm_rhs vm) align = Inr (c, s)"
        unfolding read_matrix_market_def Let_def g [symmetric] rr sum.case prod.case wc
        unfolding rd prod.case
        using vs by (simp add: s_def)
      then have "problem_source io comm vm = Inr (c, s)"
        using Some False by (simp add: problem_source_def wa)
      then show ?thesis
        using Some False by (intro goal [of s]) (simp_all add: s_def)
    qed
  qed
qed

theorem C8_right_hand_side_witness:
  "(1 \<le> comm_size \<lparr>comm_size = 2, comm_rank = 1\<rparr>
    \<and> comm_size \<lparr>comm_size = 2, comm_rank = 1\<rparr> < 2 ^ 31
    \<and> 0 \<le> comm_rank \<lparr>comm_size = 2, comm_rank = 1\<rparr>
    \<and> comm_rank \<lparr>comm_size = 2, comm_rank = 1\<rparr> < comm_size \<lparr>comm_size = 2, comm_rank = 1\<rparr>
    \<and> 1 \<le> vm_block_size (example_options (Some ''A.bin'') ''f.bin'' True)
             * aggr_block (example_options (Some ''A.bin'') ''f.bin'' True)
    \<and> vm_block_size (example_options (Some ''A.bin'') ''f.bin'' True)
             * aggr_block (example_options (Some ''A.bin'') ''f.bin'' True) < 2 ^ 31
    \<and> 0 \<le> global_rows example_io (example_options (Some ''A.bin'') ''f.bin'' True)
    \<and> global_rows example_io (example_options (Some ''A.bin'') ''f.bin'' True) \<le> 2 ^ 57
    \<and> problem_source example_io \<lparr>comm_size = 2, comm_rank = 1\<rparr>
          (example_options (Some ''A.bin'') ''f.bin'' True)
        = Inr (5, \<lparr>ptr = [0, 0, 0, 0, 0, 0], col = [], val = [], rhs = [3, 3, 3, 3, 3]\<rparr>)
    \<and> problem_source example_io \<lparr>comm_size = 2, comm_rank = 1\<rparr>
          (example_options (Some ''A.mtx'') '''' False)
        = Inr (5, \<lparr>ptr = [0, 0, 0, 0, 0, 0], col = [], val = [], rhs = [1, 1, 1, 1, 1]\<rparr>))
   \<and> (\<exists>row_beg row_end s.
      row_range \<lparr>comm_size = 2, comm_rank = 1\<rparr>
          (global_rows example_io (example_options (Some ''A.bin'') ''f.bin'' True))
          (vm_block_size (example_options (Some ''A.bin'') ''f.bin'' True)
             * aggr_block (example_options (Some ''A.bin'') ''f.bin'' True))
        = Inr (row_beg, row_end)
    \<and> row_beg \<le> row_end
    \<and> problem_source example_io \<lparr>comm_size = 2, comm_rank = 1\<rparr>
          (example_options (Some ''A.bin'') ''f.bin'' True) = Inr (row_end - row_beg, s)
    \<and> (vm_matrix (example_options (Some ''A.bin'') ''f.bin'' True) = None
        \<or> vm_rhs (example_options (Some ''A.bin'') ''f.bin'' True) = [] \<longrightarrow>
          rhs s = replicate (nat (row_end - row_beg)) 1
          \<and> int (length (rhs s)) = row_end - row_beg)
    \<and> (vm_matrix (example_options (Some ''A.bin'') ''f.bin'' True) \<noteq> None
        \<and> vm_rhs (example_options (Some ''A.bin'') ''f.bin'' True) \<noteq> [] \<longrightarrow>
          rhs s = (if vm_binary (example_options (Some ''A.bin'') ''f.bin'' True)
                   then read_dense example_io (vm_rhs (example_options (Some ''A.bin'') ''f.bin'' True))
                          row_beg row_end
                   else mm_vector example_io (vm_rhs (example_options (Some ''A.bin'') ''f.bin'' True))
                          row_beg row_end)))"
proof -
  have rr: "row_range \<lparr>comm_size = 2, comm_rank = 1\<rparr> 10 1 = Inr (5, 10)"
    by (simp add: row_range_def div64_def mod64_def wrap64_def Let_def
        signed_divide_int_def signed_modulo_int_def)
  have five: "replicate 5 x = [x, x, x, x, x]" "replicate 6 x = [x, x, x, x, x, x]" for x :: "'a"
    by (simp_all add: numeral_eq_Suc)
  have n: "1 \<le> comm_size \<lparr>comm_size = 2, comm_rank = 1\<rparr>
    \<and> comm_size \<lparr>comm_size = 2, comm_rank = 1\<rparr> < 2 ^ 31
    \<and> 0 \<le> comm_rank \<lparr>comm_size = 2, comm_rank = 1\<rparr>
    \<and> comm_rank \<lparr>comm_size = 2, comm_rank = 1\<rparr> < comm_size \<lparr>comm_size = 2, comm_rank = 1\<rparr>
    \<and> 1 \<le> vm_block_size (example_options (Some ''A.bin'') ''f.bin'' True)
             * aggr_block (example_options (Some ''A.bin'') ''f.bin'' True)
    \<and> vm_block_size (example_options (Some ''A.bin'') ''f.bin'' True)
             * aggr_block (example_options (Some ''A.bin'') ''f.bin'' True) < 2 ^ 31
    \<and> 0 \<le> global_rows example_io (example_options (Some ''A.bin'') ''f.bin'' True)
    \<and> global_rows example_io (example_options (Some ''A.bin'') ''f.bin'' True) \<le> 2 ^ 57
    \<and> problem_source example_io \<lparr>comm_size = 2, comm_rank = 1\<rparr>
          (example_options (Some ''A.bin'') ''f.bin'' True)
        = Inr (5, \<lparr>ptr = [0, 0, 0, 0, 0, 0], col = [], val = [], rhs = [3, 3, 3, 3, 3]\<rparr>)
    \<and> problem_source example_io \<lparr>comm_size = 2, comm_rank = 1\<rparr>
          (example_options (Some ''A.mtx'') '''' False)
        = Inr (5, \<lparr>ptr = [0, 0, 0, 0, 0, 0], col = [], val = [], rhs = [1, 1, 1, 1, 1]\<rparr>)"
    using rr
    by (simp add: example_options_def example_io_def global_rows_def problem_source_def
        read_binary_def read_matrix_market_def Let_def five wrap32_def wrap64_def u64_def
        vector_max_size_def)
  show ?thesis
    by (rule conjI [OF n C8_right_hand_side])
       (simp_all add: example_options_def example_io_def global_rows_def)
qed

lemma block_size_switch_unsupported:
  assumes "bs \<notin> supported_block_sizes be block_sizes"
  shows "block_size_switch be block_sizes comm bs
           = (if comm_rank comm = 0 then [Print ''Unsupported block size!''] else [])"
proof -
  have "bs \<noteq> 1" and "be = CUDA \<or> bs \<notin> set block_sizes"
    using assms by (auto simp add: supported_block_sizes_def split: if_splits)
  then show ?thesis
    by (auto simp add: block_size_switch_def)
qed

lemma main_unsupported_block_size:
  assumes "problem_source io comm vm = Inr r"
    and "vm_block_size vm \<notin> supported_block_sizes be block_sizes"
  shows "main io be block_sizes comm vm
           = Inr (if comm_rank comm = 0 then [Print ''Unsupported block size!''] else [])"
  using assms(1) block_size_switch_unsupported [OF assms(2), of comm]
  by (cases r) (simp add: main_def)

lemma row_range_zero_alignment: "isl (row_range comm n 0)"
  by (simp add: row_range_def div64_def mod64_def)

lemma main_block_size_zero:
  assumes "vm_block_size vm = 0"
  shows "isl (main io be block_sizes comm vm)"
proof -
  have w: "wrap32 (vm_block_size vm * aggr_block vm) = 0"
    using assms by (simp add: wrap32_def)
  have rz: "\<exists>e. row_range comm n 0 = Inl e" for n
    using row_range_zero_alignment [of comm n] by (simp add: isl_def)
  have "isl (problem_source io comm vm)"
  proof (cases "vm_matrix vm")
    case None
    obtain e where "row_range comm (wrap64 (wrap64 (vm_size vm * vm_size vm) * vm_size vm)) 0
        = Inl e"
      using rz by blast
    then show ?thesis
      using None by (simp add: problem_source_def w assemble_poisson3d_def Let_def)
  next
    case (Some A_file)
    obtain e1 e2 where "row_range comm (crs_size io A_file) 0 = Inl e1"
      "row_range comm (mm_rows io A_file) 0 = Inl e2"
      using rz by blast
    then show ?thesis
      using Some
      by (simp add: problem_source_def w read_binary_def read_matrix_market_def Let_def)
  qed
  then obtain e where "problem_source io comm vm = Inl e"
    by (auto simp add: isl_def)
  then show ?thesis
    by (simp add: main_def)
qed

text \<open>
  Claim C7 says that for a requested block size outside the compiled-in block sizes (1,
  and the sizes of \<^verbatim>\<open>AMGCL_BLOCK_SIZES\<close> unless the backend is CUDA) \<^verbatim>\<open>main\<close> prints
  \<^verbatim>\<open>Unsupported block size!\<close> on rank 0 only and calls no solver. \<^verbatim>\<open>main\<close> reads or assembles
  the problem before the switch, with the alignment \<^verbatim>\<open>block_size * aggr_block\<close>. The block
  size 0 is outside the supported sizes \<open>{1, 3, 4}\<close>, and with it the remainder
  \<^verbatim>\<open>chunk % block_size\<close> of every problem source divides by zero: \<^verbatim>\<open>main\<close> ends there, on one
  process and on two, for the assembled problem and for a matrix file, and prints no
  message. With the block size 5 the problem source succeeds and rank 0 prints the message.
\<close>

theorem C7_block_size_zero:
  "0 \<notin> supported_block_sizes BUILTIN AMGCL_BLOCK_SIZES
   \<and> main example_io BUILTIN AMGCL_BLOCK_SIZES \<lparr>comm_size = 1, comm_rank = 0\<rparr>
         ((example_options None [] False)\<lparr>vm_block_size := 0\<rparr>) = Inl DivisionByZero
   \<and> main example_io BUILTIN AMGCL_BLOCK_SIZES \<lparr>comm_size = 2, comm_rank = 0\<rparr>
         ((example_options None [] False)\<lparr>vm_block_size := 0\<rparr>) = Inl DivisionByZero
   \<and> main example_io BUILTIN AMGCL_BLOCK_SIZES \<lparr>comm_size = 1, comm_rank = 0\<rparr>
         ((example_options (Some ''A.bin'') [] True)\<lparr>vm_block_size := 0\<rparr>) = Inl DivisionByZero
   \<and> main example_io BUILTIN AMGCL_BLOCK_SIZES \<lparr>comm_size = 1, comm_rank = 0\<rparr>
         ((example_options None [] False)\<lparr>vm_block_size := 5\<rparr>)
        = Inr [Print ''Unsupported block size!'']"
proof -
  have r0: "row_range \<lparr>comm_size = 1, comm_rank = 0\<rparr> n 0 = Inl DivisionByZero"
    "row_range \<lparr>comm_size = 2, comm_rank = 0\<rparr> n 0 = Inl DivisionByZero" for n
    by (simp_all add: row_range_def div64_def mod64_def)
  have s: "0 \<notin> supported_block_sizes BUILTIN AMGCL_BLOCK_SIZES"
    "5 \<notin> supported_block_sizes BUILTIN AMGCL_BLOCK_SIZES"
    by (simp_all add: supported_block_sizes_def AMGCL_BLOCK_SIZES_def)
  have z: "main example_io BUILTIN AMGCL_BLOCK_SIZES \<lparr>comm_size = 1, comm_rank = 0\<rparr>
         ((example_options None [] False)\<lparr>vm_block_size := 0\<rparr>) = Inl DivisionByZero"
    "main example_io BUILTIN AMGCL_BLOCK_SIZES \<lparr>comm_size = 2, comm_rank = 0\<rparr>
         ((example_options None [] False)\<lparr>vm_block_size := 0\<rparr>) = Inl DivisionByZero"
    "main example_io BUILTIN AMGCL_BLOCK_SIZES \<lparr>comm_size = 1, comm_rank = 0\<rparr>
         ((example_options (Some ''A.bin'') [] True)\<lparr>vm_block_size := 0\<rparr>) = Inl DivisionByZero"
    by (simp_all add: main_def problem_source_def assemble_poisson3d_def read_binary_def
        example_options_def example_io_def Let_def wrap32_def r0)
  have rr: "row_range \<lparr>comm_size = 1, comm_rank = 0\<rparr> (2 * 2 * 2) 5 = Inr (0, 8)"
    by (simp add: row_range_def div64_def mod64_def wrap64_def Let_def
        signed_divide_int_def signed_modulo_int_def)
  obtain t where "assemble_poisson3d \<lparr>comm_size = 1, comm_rank = 0\<rparr> 2 5 = Inr (8 - 0, t)"
    using assemble_rhs [OF rr] by auto
  then have "problem_source example_io \<lparr>comm_size = 1, comm_rank = 0\<rparr>
         ((example_options None [] False)\<lparr>vm_block_size := 5\<rparr>) = Inr (8 - 0, t)"
    by (simp add: problem_source_def example_options_def wrap32_def)
  then have "main example_io BUILTIN AMGCL_BLOCK_SIZES \<lparr>comm_size = 1, comm_rank = 0\<rparr>
         ((example_options None [] False)\<lparr>vm_block_size := 5\<rparr>)
        = Inr [Print ''Unsupported block size!'']"
    using s(2) by (subst main_unsupported_block_size) (simp_all add: example_options_def)
  then show ?thesis
    using s(1) z by simp
qed

section \<open>Repartitioning\<close>

text \<open>
  Claim C4. If there is one process or the partition strategy is \<^verbatim>\<open>merge\<close>, \<^verbatim>\<open>partition\<close>
  returns the distributed matrix built from the input strip, leaves the right-hand side
  as it is and calls nothing else: no restriction operator is computed.
\<close>

theorem C4_partition_skipped:
  assumes "comm_size comm = 1 \<or> ptype = merge"
  shows "partition ops comm Astrip rhs_v ptype bs
           = Inr (\<lparr>mat = make_dmatrix ops comm Astrip, on_backend = False\<rparr>, rhs_v, [])"
  using assms by (auto simp add: partition_def Let_def)

theorem C4_partition_skipped_witness:
  "(comm_size \<lparr>comm_size = 1, comm_rank = 0\<rparr> = 1 \<or> ptscotch = merge)
   \<and> partition example_ops \<lparr>comm_size = 1, comm_rank = 0\<rparr> ''A'' [1, 2, 3] ptscotch 1
       = Inr (\<lparr>mat = ''A'', on_backend = False\<rparr>, [1, 2, 3], [])
   \<and> (comm_size \<lparr>comm_size = 4, comm_rank = 2\<rparr> = 1 \<or> merge = merge)
   \<and> partition example_ops \<lparr>comm_size = 4, comm_rank = 2\<rparr> ''A'' [1, 2, 3] merge 1
       = Inr (\<lparr>mat = ''A'', on_backend = False\<rparr>, [1, 2, 3], [])"
  using C4_partition_skipped [of "\<lparr>comm_size = 1, comm_rank = 0\<rparr>" ptscotch example_ops "''A''" "[1, 2, 3]" 1]
    C4_partition_skipped [of "\<lparr>comm_size = 4, comm_rank = 2\<rparr>" merge example_ops "''A''" "[1, 2, 3]" 1]
  by (simp add: example_ops_def)

text \<open>
  Claim C3. With more than one process and a strategy other than \<^verbatim>\<open>merge\<close>, \<^verbatim>\<open>partition\<close>
  succeeds: with \<open>I\<close> the operator of the partitioner and \<open>J = transpose I\<close> it returns the
  product \<open>J * (A * I)\<close>, not moved to the backend, and the right-hand side \<open>J * rhs\<close>, one
  element per local row of \<open>J\<close>. The calls are made in the order transpose, product,
  product, move of \<open>J\<close> to the backend, matrix-vector product; the matrix-vector product
  runs on the moved \<open>J\<close> and would fail on \<open>J\<close> before the move.
\<close>

theorem C3_partition_products:
  assumes "1 < comm_size comm" "ptype \<noteq> merge"
  shows "let A = make_dmatrix ops comm Astrip;
             I = part ops ptype 1 A bs;
             J = transpose_m ops I;
             A' = product_m ops J (product_m ops A I);
             rhs' = map (\<lambda>i. spmv_row ops 1 J rhs_v 0 (zero_x ops) i) [0..<loc_rows ops J]
         in partition ops comm Astrip rhs_v ptype bs
              = Inr (\<lparr>mat = A', on_backend = False\<rparr>, rhs',
                     [Tic ''partition'', Call_part A bs, Call_transpose I,
                      Call_product A I, Call_product J (product_m ops A I),
                      Call_move_to_backend J, Call_spmv J, Toc ''partition''])
            \<and> length rhs' = loc_rows ops J
            \<and> spmv ops 1 (move_to_backend \<lparr>mat = J, on_backend = False\<rparr>) rhs_v 0
                 (replicate (loc_rows ops J) (zero_x ops)) = Inr rhs'
            \<and> spmv ops 1 \<lparr>mat = J, on_backend = False\<rparr> rhs_v 0
                 (replicate (loc_rows ops J) (zero_x ops)) = Inl Not_on_backend"
  using assms
  by (simp add: partition_def Let_def transpose_d_def product_d_def move_to_backend_def spmv_def)

theorem C3_partition_products_witness:
  "1 < comm_size \<lparr>comm_size = 2, comm_rank = 0\<rparr> \<and> ptscotch \<noteq> merge
   \<and> partition example_ops \<lparr>comm_size = 2, comm_rank = 0\<rparr> ''A'' [1, 2, 3] ptscotch 1
       = Inr (\<lparr>mat = ''(I^T*(A*I))'', on_backend = False\<rparr>, [6, 7],
              [Tic ''partition'', Call_part ''A'' 1, Call_transpose ''I'',
               Call_product ''A'' ''I'', Call_product ''I^T'' ''(A*I)'',
               Call_move_to_backend ''I^T'', Call_spmv ''I^T'', Toc ''partition''])"
proof -
  have h: "1 < comm_size \<lparr>comm_size = 2, comm_rank = 0\<rparr>" "ptscotch \<noteq> merge"
    by simp_all
  have two: "[0..<2] = [0, 1]"
    by (simp add: upt_rec)
  show ?thesis
    using h C3_partition_products [OF h, of example_ops "''A''" 1 "[1, 2, 3]"]
    by (simp add: Let_def example_ops_def two)
qed

section \<open>Diagonal scaling\<close>

lemma slice_empty: "e \<le> j \<Longrightarrow> slice xs j e = []"
  by (simp add: slice_def)

lemma slice_Cons:
  assumes "0 \<le> j" "j < e" "e \<le> int (length xs)"
  shows "slice xs j e = xs ! nat j # slice xs (j + 1) e"
proof -
  have n: "nat (e - j) = Suc (nat (e - (j + 1)))" "nat (j + 1) = Suc (nat j)"
    using assms by simp_all
  have "nat j < length xs"
    using assms by simp
  then have "drop (nat j) xs = xs ! nat j # drop (Suc (nat j)) xs"
    by (simp add: Cons_nth_drop_Suc)
  then show ?thesis
    by (simp add: slice_def n)
qed

lemma read_at_in_range:
  "0 \<le> j \<Longrightarrow> j < int (length xs) \<Longrightarrow> read_at xs j = Some (xs ! nat j)"
  by (simp add: read_at_def)

lemma scale_row_find:
  assumes "0 \<le> j" "e \<le> int (length cols)" "length vals = length cols"
  shows "scale_row inv_sqrt cols vals i I j e d
           = Some (case find (\<lambda>(c, v). c = int I) (zip (slice cols j e) (slice vals j e)) of
                     None \<Rightarrow> d
                   | Some (c, v) \<Rightarrow> d[i := inv_sqrt v])"
  using assms
proof (induction inv_sqrt cols vals i I j e d rule: scale_row.induct)
  case (1 inv_sqrt cols vals i I j e d)
  show ?case
  proof (cases "j < e")
    case False
    then show ?thesis
      by (subst scale_row.simps) (simp add: slice_empty)
  next
    case True
    have rc: "read_at cols j = Some (cols ! nat j)" and rv: "read_at vals j = Some (vals ! nat j)"
      using True "1.prems" by (simp_all add: read_at_in_range)
    have sc: "slice cols j e = cols ! nat j # slice cols (j + 1) e"
      and sv: "slice vals j e = vals ! nat j # slice vals (j + 1) e"
      using True "1.prems" by (simp_all add: slice_Cons)
    show ?thesis
    proof (cases "cols ! nat j = int I")
      case eq: True
      then show ?thesis
        using True rc rv by (subst scale_row.simps) (simp add: sc sv)
    next
      case ne: False
      have "scale_row inv_sqrt cols vals i I (j + 1) e d
           = Some (case find (\<lambda>(c, v). c = int I)
                          (zip (slice cols (j + 1) e) (slice vals (j + 1) e)) of
                     None \<Rightarrow> d
                   | Some (c, v) \<Rightarrow> d[i := inv_sqrt v])"
        using True rc ne "1.prems" by (intro "1.IH") simp_all
      then show ?thesis
        using True rc ne by (subst scale_row.simps) (simp add: sc sv)
    qed
  qed
qed

lemma crs_wf_mono:
  assumes "crs_wf ptrs cols vals chunk" "j \<le> chunk" "i \<le> j"
  shows "ptrs ! i \<le> ptrs ! j"
  using assms(2,3)
proof (induction j)
  case 0
  then show ?case by simp
next
  case (Suc j)
  show ?case
  proof (cases "i = Suc j")
    case True
    then show ?thesis by simp
  next
    case False
    then have "ptrs ! i \<le> ptrs ! j"
      using Suc by simp
    moreover have "ptrs ! j \<le> ptrs ! (j + 1)"
      using assms(1) Suc.prems(1) by (simp add: crs_wf_def)
    ultimately show ?thesis by simp
  qed
qed

lemma crs_wf_bounds:
  assumes "crs_wf ptrs cols vals chunk" "i \<le> chunk"
  shows "0 \<le> ptrs ! i" "ptrs ! i \<le> int (length cols)"
proof -
  have "ptrs ! 0 \<le> ptrs ! i" "ptrs ! i \<le> ptrs ! chunk"
    using assms by (simp_all add: crs_wf_mono [OF assms(1)])
  then show "0 \<le> ptrs ! i" "ptrs ! i \<le> int (length cols)"
    using assms(1) by (simp_all add: crs_wf_def)
qed

lemma scale_row_diagonal:
  assumes "crs_wf ptrs cols vals chunk" "i < chunk"
  shows "scale_row inv_sqrt cols vals i I (ptrs ! i) (ptrs ! (i + 1)) d
           = Some (case diagonal_entry ptrs cols vals i I of
                     None \<Rightarrow> d
                   | Some v \<Rightarrow> d[i := inv_sqrt v])"
proof -
  have "0 \<le> ptrs ! i" "ptrs ! (i + 1) \<le> int (length cols)" "length vals = length cols"
    using crs_wf_bounds [OF assms(1)] assms by (simp_all add: crs_wf_def)
  then show ?thesis
    by (simp add: scale_row_find diagonal_entry_def crs_row_def
        split: option.splits prod.splits)
qed

lemma read_at_nat: "i < length xs \<Longrightarrow> read_at xs (int i) = Some (xs ! i)"
  by (simp add: read_at_def)

lemma scale_loop_spec:
  assumes "crs_wf ptrs cols vals chunk" "i \<le> chunk" "I = row_beg + i"
    and "length (dia s) = chunk" "length (d_ptr s) = chunk + 1" "length (d_col s) = chunk"
  shows "\<exists>s'. scale_loop inv_sqrt ptrs cols vals chunk i I s = Some s'
      \<and> length (dia s') = chunk \<and> length (d_ptr s') = chunk + 1 \<and> length (d_col s') = chunk
      \<and> d_ptr s' ! chunk = d_ptr s ! chunk
      \<and> (\<forall>k<i. d_ptr s' ! k = d_ptr s ! k \<and> d_col s' ! k = d_col s ! k \<and> dia s' ! k = dia s ! k)
      \<and> (\<forall>k<chunk. i \<le> k \<longrightarrow>
            d_ptr s' ! k = int k \<and> d_col s' ! k = int (row_beg + k)
            \<and> dia s' ! k = scaled inv_sqrt ptrs cols vals row_beg k (dia s ! k))"
  using assms
proof (induction inv_sqrt ptrs cols vals chunk i I s rule: scale_loop.induct)
  case (1 inv_sqrt ptrs cols vals chunk i I s)
  show ?case
  proof (cases "i < chunk")
    case False
    then show ?thesis
      using "1.prems" by (subst scale_loop.simps) simp
  next
    case True
    define s1 where "s1 = s\<lparr>d_ptr := (d_ptr s)[i := int i]\<rparr>"
    define s2 where "s2 = s1\<lparr>d_col := (d_col s1)[i := int I]\<rparr>"
    define d where "d = (case diagonal_entry ptrs cols vals i I of
                     None \<Rightarrow> dia s2
                   | Some v \<Rightarrow> (dia s2)[i := inv_sqrt v])"
    define s3 where "s3 = s2\<lparr>dia := d\<rparr>"
    have wf: "crs_wf ptrs cols vals chunk"
      by (rule "1.prems"(1))
    have lp: "length ptrs = chunk + 1"
      using wf by (simp add: crs_wf_def)
    have r1: "read_at ptrs (int i) = Some (ptrs ! i)"
      and r2: "read_at ptrs (int (i + 1)) = Some (ptrs ! (i + 1))"
      using True lp read_at_nat [of i ptrs] read_at_nat [of "i + 1" ptrs] by simp_all
    have row: "scale_row inv_sqrt cols vals i I (ptrs ! i) (ptrs ! (i + 1)) (dia s2) = Some d"
      unfolding d_def using wf True by (rule scale_row_diagonal)
    have step: "scale_loop inv_sqrt ptrs cols vals chunk i I s
                  = scale_loop inv_sqrt ptrs cols vals chunk (i + 1) (I + 1) s3"
      using True r1 r2 row
      by (subst scale_loop.simps) (simp add: Let_def s1_def s2_def s3_def)
    have len3: "length (dia s3) = chunk" "length (d_ptr s3) = chunk + 1" "length (d_col s3) = chunk"
      using "1.prems"(4-6)
      by (simp_all add: s3_def s2_def s1_def d_def split: option.splits)
    have "\<exists>s'. scale_loop inv_sqrt ptrs cols vals chunk (i + 1) (I + 1) s3 = Some s'
      \<and> length (dia s') = chunk \<and> length (d_ptr s') = chunk + 1 \<and> length (d_col s') = chunk
      \<and> d_ptr s' ! chunk = d_ptr s3 ! chunk
      \<and> (\<forall>k<i + 1. d_ptr s' ! k = d_ptr s3 ! k \<and> d_col s' ! k = d_col s3 ! k
                    \<and> dia s' ! k = dia s3 ! k)
      \<and> (\<forall>k<chunk. i + 1 \<le> k \<longrightarrow>
            d_ptr s' ! k = int k \<and> d_col s' ! k = int (row_beg + k)
            \<and> dia s' ! k = scaled inv_sqrt ptrs cols vals row_beg k (dia s3 ! k))"
    unfolding s3_def
    proof (rule "1.IH" [OF True s1_def s2_def r1 r2 row])
      show "crs_wf ptrs cols vals chunk" by (rule wf)
      show "i + 1 \<le> chunk" using True by simp
      show "I + 1 = row_beg + (i + 1)" using "1.prems"(3) by simp
      show "length (dia (s2\<lparr>dia := d\<rparr>)) = chunk" using len3(1) by (simp add: s3_def)
      show "length (d_ptr (s2\<lparr>dia := d\<rparr>)) = chunk + 1" using len3(2) by (simp add: s3_def)
      show "length (d_col (s2\<lparr>dia := d\<rparr>)) = chunk" using len3(3) by (simp add: s3_def)
    qed
    then obtain s' where
      run: "scale_loop inv_sqrt ptrs cols vals chunk (i + 1) (I + 1) s3 = Some s'"
      and len: "length (dia s') = chunk" "length (d_ptr s') = chunk + 1" "length (d_col s') = chunk"
      and lastp: "d_ptr s' ! chunk = d_ptr s3 ! chunk"
      and unchanged: "\<And>k. k < i + 1 \<Longrightarrow> d_ptr s' ! k = d_ptr s3 ! k \<and> d_col s' ! k = d_col s3 ! k
                    \<and> dia s' ! k = dia s3 ! k"
      and later: "\<And>k. k < chunk \<Longrightarrow> i + 1 \<le> k \<Longrightarrow>
            d_ptr s' ! k = int k \<and> d_col s' ! k = int (row_beg + k)
            \<and> dia s' ! k = scaled inv_sqrt ptrs cols vals row_beg k (dia s3 ! k)"
      by blast
    have li: "i < length (dia s)" "i < length (d_ptr s)" "i < length (d_col s)"
      using True "1.prems"(4-6) by simp_all
    have p3: "d_ptr s3 ! k = (if k = i then int i else d_ptr s ! k)" for k
      using li by (simp add: s3_def s2_def s1_def nth_list_update)
    have c3: "d_col s3 ! k = (if k = i then int I else d_col s ! k)" for k
      using li by (simp add: s3_def s2_def s1_def nth_list_update)
    have a3: "dia s3 ! k = (if k = i then scaled inv_sqrt ptrs cols vals row_beg i (dia s ! i)
                            else dia s ! k)" for k
      using li "1.prems"(3)
      by (simp add: s3_def s2_def s1_def d_def scaled_def nth_list_update split: option.splits)
    have g1: "scale_loop inv_sqrt ptrs cols vals chunk i I s = Some s'"
      using step run by simp
    have g2: "d_ptr s' ! chunk = d_ptr s ! chunk"
      using lastp True by (simp add: p3)
    have g3: "d_ptr s' ! k = d_ptr s ! k \<and> d_col s' ! k = d_col s ! k \<and> dia s' ! k = dia s ! k"
      if "k < i" for k
      using unchanged [of k] that by (simp add: p3 c3 a3)
    have g4: "d_ptr s' ! k = int k \<and> d_col s' ! k = int (row_beg + k)
            \<and> dia s' ! k = scaled inv_sqrt ptrs cols vals row_beg k (dia s ! k)"
      if "k < chunk" "i \<le> k" for k
    proof (cases "k = i")
      case True
      then show ?thesis
        using unchanged [of i] "1.prems"(3) by (simp add: p3 c3 a3)
    next
      case False
      then have "i + 1 \<le> k" using that by simp
      then show ?thesis
        using later [OF that(1)] False by (simp add: a3)
    qed
    show ?thesis
      using g1 len g2 g3 g4 by blast
  qed
qed

lemma diagonal_entry_None:
  "diagonal_entry ptrs cols vals i I = None \<longleftrightarrow> int I \<notin> fst ` set (crs_row ptrs cols vals i)"
  by (auto simp add: diagonal_entry_def find_None_iff image_iff)

lemma diagonal_entry_Some:
  assumes "diagonal_entry ptrs cols vals i I = Some v"
  shows "(int I, v) \<in> set (crs_row ptrs cols vals i)"
proof -
  obtain c where f: "find (\<lambda>(c, v). c = int I) (crs_row ptrs cols vals i) = Some (c, v)"
    using assms by (auto simp add: diagonal_entry_def)
  then obtain k where "k < length (crs_row ptrs cols vals i)"
    "crs_row ptrs cols vals i ! k = (c, v)" "c = int I"
    by (auto simp add: find_Some_iff)
  then show ?thesis
    by (metis nth_mem)
qed

text \<open>
  Claim C10. On well-formed CRS arrays of \<open>chunk\<close> rows the diagonal scaling of the tutorial
  runs without a read out of range. For every local row \<open>i\<close> with the global row
  \<open>I = row_beg + i\<close>: \<open>dia[i]\<close> is \<open>1 / sqrt v\<close> for the value \<open>v\<close> of the first stored entry
  of the row in the column \<open>I\<close>, and stays \<open>1.0\<close> when the row stores no entry in the column
  \<open>I\<close>; \<open>d_ptr[i] = i\<close>, \<open>d_ptr[i + 1] = i + 1\<close> and \<open>d_col[i] = I\<close>, so the matrix \<open>D\<close> has
  one entry per local row, in the column \<open>I\<close>; and \<open>d_ptr[chunk] = chunk\<close>.
\<close>

theorem C10_diagonal_scaling:
  assumes "crs_wf ptrs cols vals chunk"
  shows "\<exists>s. diagonal_scaling inv_sqrt one ptrs cols vals chunk row_beg = Some s
      \<and> length (dia s) = chunk \<and> length (d_ptr s) = chunk + 1 \<and> length (d_col s) = chunk
      \<and> (\<forall>i<chunk.
            dia s ! i = (case diagonal_entry ptrs cols vals i (row_beg + i) of
                           None \<Rightarrow> one
                         | Some v \<Rightarrow> inv_sqrt v)
            \<and> (diagonal_entry ptrs cols vals i (row_beg + i) = None
                 \<longleftrightarrow> int (row_beg + i) \<notin> fst ` set (crs_row ptrs cols vals i))
            \<and> (\<forall>v. diagonal_entry ptrs cols vals i (row_beg + i) = Some v
                 \<longrightarrow> (int (row_beg + i), v) \<in> set (crs_row ptrs cols vals i))
            \<and> d_ptr s ! i = int i \<and> d_ptr s ! (i + 1) = int i + 1
            \<and> d_col s ! i = int (row_beg + i))
      \<and> d_ptr s ! chunk = int chunk"
proof -
  define s0 :: "'a scaling" where
    "s0 = \<lparr>dia = replicate chunk one, d_ptr = replicate (chunk + 1) 0, d_col = replicate chunk 0\<rparr>"
  have "\<exists>s'. scale_loop inv_sqrt ptrs cols vals chunk 0 row_beg s0 = Some s'
      \<and> length (dia s') = chunk \<and> length (d_ptr s') = chunk + 1 \<and> length (d_col s') = chunk
      \<and> d_ptr s' ! chunk = d_ptr s0 ! chunk
      \<and> (\<forall>k<0. d_ptr s' ! k = d_ptr s0 ! k \<and> d_col s' ! k = d_col s0 ! k \<and> dia s' ! k = dia s0 ! k)
      \<and> (\<forall>k<chunk. 0 \<le> k \<longrightarrow>
            d_ptr s' ! k = int k \<and> d_col s' ! k = int (row_beg + k)
            \<and> dia s' ! k = scaled inv_sqrt ptrs cols vals row_beg k (dia s0 ! k))"
    using assms by (intro scale_loop_spec) (simp_all add: s0_def)
  then obtain s' where
    run: "scale_loop inv_sqrt ptrs cols vals chunk 0 row_beg s0 = Some s'"
    and len: "length (dia s') = chunk" "length (d_ptr s') = chunk + 1" "length (d_col s') = chunk"
    and rows0: "\<forall>k<chunk. 0 \<le> k \<longrightarrow>
            d_ptr s' ! k = int k \<and> d_col s' ! k = int (row_beg + k)
            \<and> dia s' ! k = scaled inv_sqrt ptrs cols vals row_beg k (dia s0 ! k)"
    by (elim exE conjE)
  have rows: "d_ptr s' ! k = int k \<and> d_col s' ! k = int (row_beg + k)
            \<and> dia s' ! k = scaled inv_sqrt ptrs cols vals row_beg k (dia s0 ! k)" if "k < chunk" for k
    using rows0 that by simp
  define s where "s = s'\<lparr>d_ptr := (d_ptr s')[length (d_ptr s') - 1 := int chunk]\<rparr>"
  have res: "diagonal_scaling inv_sqrt one ptrs cols vals chunk row_beg = Some s"
    using run by (simp add: diagonal_scaling_def s0_def s_def)
  have p: "d_ptr s ! k = (if k = chunk then int chunk else d_ptr s' ! k)" if "k \<le> chunk" for k
    using that len by (simp add: s_def nth_list_update)
  have row: "dia s ! i = (case diagonal_entry ptrs cols vals i (row_beg + i) of
                           None \<Rightarrow> one
                         | Some v \<Rightarrow> inv_sqrt v)
            \<and> d_ptr s ! i = int i \<and> d_ptr s ! (i + 1) = int i + 1
            \<and> d_col s ! i = int (row_beg + i)" if "i < chunk" for i
  proof -
    have "d_ptr s ! (i + 1) = int i + 1"
    proof (cases "i + 1 = chunk")
      case True
      then show ?thesis using p [of "i + 1"] by simp
    next
      case False
      then have "i + 1 < chunk" using that by simp
      then show ?thesis using p [of "i + 1"] rows [of "i + 1"] by simp
    qed
    moreover have "dia s0 ! i = one"
      using that by (simp add: s0_def)
    ultimately show ?thesis
      using that rows [of i] p [of i] by (simp add: s_def scaled_def)
  qed
  have rows': "\<forall>i<chunk.
            dia s ! i = (case diagonal_entry ptrs cols vals i (row_beg + i) of
                           None \<Rightarrow> one
                         | Some v \<Rightarrow> inv_sqrt v)
            \<and> (diagonal_entry ptrs cols vals i (row_beg + i) = None
                 \<longleftrightarrow> int (row_beg + i) \<notin> fst ` set (crs_row ptrs cols vals i))
            \<and> (\<forall>v. diagonal_entry ptrs cols vals i (row_beg + i) = Some v
                 \<longrightarrow> (int (row_beg + i), v) \<in> set (crs_row ptrs cols vals i))
            \<and> d_ptr s ! i = int i \<and> d_ptr s ! (i + 1) = int i + 1
            \<and> d_col s ! i = int (row_beg + i)"
  proof (intro allI impI)
    fix i assume i: "i < chunk"
    have n: "diagonal_entry ptrs cols vals i (row_beg + i) = None
                 \<longleftrightarrow> int (row_beg + i) \<notin> fst ` set (crs_row ptrs cols vals i)"
      by (rule diagonal_entry_None)
    have e: "\<forall>v. diagonal_entry ptrs cols vals i (row_beg + i) = Some v
                 \<longrightarrow> (int (row_beg + i), v) \<in> set (crs_row ptrs cols vals i)"
      by (intro allI impI) (rule diagonal_entry_Some)
    show "dia s ! i = (case diagonal_entry ptrs cols vals i (row_beg + i) of
                           None \<Rightarrow> one
                         | Some v \<Rightarrow> inv_sqrt v)
            \<and> (diagonal_entry ptrs cols vals i (row_beg + i) = None
                 \<longleftrightarrow> int (row_beg + i) \<notin> fst ` set (crs_row ptrs cols vals i))
            \<and> (\<forall>v. diagonal_entry ptrs cols vals i (row_beg + i) = Some v
                 \<longrightarrow> (int (row_beg + i), v) \<in> set (crs_row ptrs cols vals i))
            \<and> d_ptr s ! i = int i \<and> d_ptr s ! (i + 1) = int i + 1
            \<and> d_col s ! i = int (row_beg + i)"
      by (rule conjI [OF row [OF i, THEN conjunct1]
                 conjI [OF n conjI [OF e row [OF i, THEN conjunct2]]]])
  qed
  have lens: "length (dia s) = chunk \<and> length (d_ptr s) = chunk + 1 \<and> length (d_col s) = chunk"
    using len by (simp add: s_def)
  have lastp: "d_ptr s ! chunk = int chunk"
    using p [of chunk] by simp
  show ?thesis
    by (rule exI [of _ s]) (intro conjI res lens [THEN conjunct1] lens [THEN conjunct2, THEN conjunct1]
        lens [THEN conjunct2, THEN conjunct2] rows' lastp)
qed

theorem C10_diagonal_scaling_witness:
  "(crs_wf [0, 2, 3, 5] [7, 4, 8, 6, 6] [10, 20, 30, 40, 50 :: real] 3
    \<and> diagonal_scaling (\<lambda>x. 1 / sqrt x) 1 [0, 2, 3, 5] [7, 4, 8, 6, 6] [10, 20, 30, 40, 50] 3 4
        = Some \<lparr>dia = [1 / sqrt 20, 1, 1 / sqrt 40], d_ptr = [0, 1, 2, 3], d_col = [4, 5, 6]\<rparr>)
   \<and> (\<exists>s. diagonal_scaling (\<lambda>x. 1 / sqrt x) 1 [0, 2, 3, 5] [7, 4, 8, 6, 6]
              [10, 20, 30, 40, 50 :: real] 3 4 = Some s
      \<and> length (dia s) = 3 \<and> length (d_ptr s) = 3 + 1 \<and> length (d_col s) = 3
      \<and> (\<forall>i<3.
            dia s ! i = (case diagonal_entry [0, 2, 3, 5] [7, 4, 8, 6, 6] [10, 20, 30, 40, 50] i (4 + i) of
                           None \<Rightarrow> 1
                         | Some v \<Rightarrow> 1 / sqrt v)
            \<and> (diagonal_entry [0, 2, 3, 5] [7, 4, 8, 6, 6] [10, 20, 30, 40, 50 :: real] i (4 + i) = None
                 \<longleftrightarrow> int (4 + i) \<notin> fst ` set (crs_row [0, 2, 3, 5] [7, 4, 8, 6, 6]
                                                 [10, 20, 30, 40, 50 :: real] i))
            \<and> (\<forall>v. diagonal_entry [0, 2, 3, 5] [7, 4, 8, 6, 6] [10, 20, 30, 40, 50 :: real] i (4 + i) = Some v
                 \<longrightarrow> (int (4 + i), v) \<in> set (crs_row [0, 2, 3, 5] [7, 4, 8, 6, 6]
                                              [10, 20, 30, 40, 50 :: real] i))
            \<and> d_ptr s ! i = int i \<and> d_ptr s ! (i + 1) = int i + 1
            \<and> d_col s ! i = int (4 + i))
      \<and> d_ptr s ! 3 = int 3)"
proof -
  have wf: "crs_wf [0, 2, 3, 5] [7, 4, 8, 6, 6] [10, 20, 30, 40, 50 :: real] 3"
    by (simp add: crs_wf_def numeral_3_eq_3 less_Suc_eq)
  have r: "replicate 3 x = [x, x, x]" "replicate (3 + 1) x = [x, x, x, x]" for x :: 'b
    by (simp_all add: numeral_eq_Suc)
  have run: "diagonal_scaling (\<lambda>x. 1 / sqrt x) 1 [0, 2, 3, 5] [7, 4, 8, 6, 6] [10, 20, 30, 40, 50] 3 4
        = Some \<lparr>dia = [1 / sqrt 20, 1, 1 / sqrt 40], d_ptr = [0, 1, 2, 3], d_col = [4, 5, 6]\<rparr>"
    unfolding diagonal_scaling_def r
    by (simp add: scale_loop.simps scale_row.simps read_at_def Let_def)
  show ?thesis
    by (rule conjI [OF conjI [OF wf run] C10_diagonal_scaling [OF wf]])
qed

end
